theory Spec2Isabelle
  imports Complex_Main
begin

section \<open>Strings of UTF-16 code units\<close>

text \<open>
  A JavaScript string is a sequence of UTF-16 code units. A code unit is modelled by its
  number, so \<open>length\<close> counts what \<^verbatim>\<open>s.length\<close> counts and the box-drawing characters
  of the connector text are one element each. The model does not use the bound
  \<open>2 ^ 16\<close>: every statement about all strings covers every JavaScript string.
\<close>

type_synonym jschar = nat
type_synonym jsstring = "nat list"

text \<open>
  The white space of \<^verbatim>\<open>\s\<close> and of \<^verbatim>\<open>String.prototype.trim\<close>: TAB, LF, VT, FF, CR,
  SPACE, NBSP, U+1680, U+2000 to U+200A, LS, PS, U+202F, U+205F, U+3000 and U+FEFF.
\<close>

definition is_ws :: "jschar \<Rightarrow> bool" where
  "is_ws c \<longleftrightarrow>
     c = 9 \<or> c = 10 \<or> c = 11 \<or> c = 12 \<or> c = 13 \<or> c = 32 \<or> c = 160 \<or> c = 5760 \<or>
     (8192 \<le> c \<and> c \<le> 8202) \<or> c = 8232 \<or> c = 8233 \<or> c = 8239 \<or> c = 8287 \<or>
     c = 12288 \<or> c = 65279"

text \<open>\<^verbatim>\<open>l.replace(/\s+$/g, "")\<close>: the trailing white space is removed.\<close>

definition trimEnd :: "jsstring \<Rightarrow> jsstring" where
  "trimEnd s = rev (dropWhile is_ws (rev s))"

text \<open>\<^verbatim>\<open>s.trim()\<close>.\<close>

definition trim :: "jsstring \<Rightarrow> jsstring" where
  "trim s = trimEnd (dropWhile is_ws s)"

text \<open>\<^verbatim>\<open>s.split("\n")\<close>: the empty string gives one empty line.\<close>

fun split_lines :: "jsstring \<Rightarrow> jsstring list" where
  "split_lines [] = [[]]"
| "split_lines (c # s) =
     (if c = 10 then [] # split_lines s
      else (case split_lines s of
              [] \<Rightarrow> [[c]]
            | l # ls \<Rightarrow> (c # l) # ls))"

text \<open>\<^verbatim>\<open>out.join("\n")\<close>: no line gives the empty string.\<close>

fun join_lines :: "jsstring list \<Rightarrow> jsstring" where
  "join_lines [] = []"
| "join_lines [l] = l"
| "join_lines (l # m # ls) = l @ 10 # join_lines (m # ls)"

text \<open>\<^verbatim>\<open>countLeadingSpaces\<close>: only U+0020 counts.\<close>

definition countLeadingSpaces :: "jsstring \<Rightarrow> nat" where
  "countLeadingSpaces s = length (takeWhile (\<lambda>c. c = 32) s)"

text \<open>
  \<^verbatim>\<open>hay.indexOf(needle)\<close>: the first position where \<open>needle\<close> starts, \<open>-1\<close> when there
  is none.
\<close>

fun find_index :: "jsstring \<Rightarrow> jsstring \<Rightarrow> nat option" where
  "find_index needle [] = (if needle = [] then Some 0 else None)"
| "find_index needle (c # s) =
     (if take (length needle) (c # s) = needle then Some 0
      else map_option Suc (find_index needle s))"

definition indexOf :: "jsstring \<Rightarrow> jsstring \<Rightarrow> int" where
  "indexOf needle hay = (case find_index needle hay of None \<Rightarrow> - 1 | Some i \<Rightarrow> int i)"

section \<open>The tree\<close>

text \<open>
  The field \<^verbatim>\<open>text\<close> is named \<open>node_text\<close>: \<open>text\<close> is a keyword of the theory
  language.
\<close>

datatype node = Node (node_text: jsstring) (children: "node list")

section \<open>parseIndentedTree\<close>

text \<open>
  The source keeps one object graph: \<^verbatim>\<open>root\<close>, whose \<^verbatim>\<open>children\<close> arrays own every
  node, and a stack of references into it. A node is appended to its parent's array when
  it is created and is changed later through the stack's reference. Every node has one
  owner, so a reference is modelled by the path of child indices that leads from
  \<^verbatim>\<open>root\<close> to the node, and \<^verbatim>\<open>parent.children.push(node)\<close> by an update of the tree
  at the parent's path.
\<close>

fun children_at :: "nat list \<Rightarrow> node \<Rightarrow> node list" where
  "children_at [] n = children n"
| "children_at (i # p) n = children_at p (children n ! i)"

fun push_child :: "nat list \<Rightarrow> node \<Rightarrow> node \<Rightarrow> node" where
  "push_child [] new (Node t cs) = Node t (cs @ [new])"
| "push_child (i # p) new (Node t cs) = Node t (cs[i := push_child p new (cs ! i)])"

record parse_state =
  root :: node
  stack :: "(int \<times> nat list) list"

text \<open>
  The stack is kept top first. The entry of \<^verbatim>\<open>root\<close> has level \<open>-1\<close> and path \<open>[]\<close>;
  when the stack is empty the source falls back on \<^verbatim>\<open>root\<close> itself.
\<close>

definition parse_line :: "nat \<Rightarrow> parse_state \<Rightarrow> jsstring \<Rightarrow> parse_state" where
  "parse_line indentSize st raw =
     (let lead = countLeadingSpaces raw;
          level = int (lead div indentSize);
          new = Node (trim raw) [];
          stk = dropWhile (\<lambda>(l, p). l \<ge> level) (stack st);
          parent = (case stk of [] \<Rightarrow> [] | (l, p) # _ \<Rightarrow> p);
          here = parent @ [length (children_at parent (root st))]
      in \<lparr>root = push_child parent new (root st), stack = (level, here) # stk\<rparr>)"

definition ROOT_TEXT :: jsstring where
  "ROOT_TEXT = [95, 95, 82, 79, 79, 84, 95, 95]"

text \<open>
  The lines the loop runs over: every tab replaced by \<^verbatim>\<open>indentSize\<close> spaces, the text split
  at line feeds, trailing white space removed, and the lines that trim to nothing dropped.
\<close>

definition parse_lines_of :: "nat \<Rightarrow> jsstring \<Rightarrow> jsstring list" where
  "parse_lines_of indentSize input =
     filter (\<lambda>l. length (trim l) > 0)
       (map trimEnd
          (split_lines (concat (map (\<lambda>c. if c = 9 then replicate indentSize 32 else [c]) input))))"

text \<open>
  \<^verbatim>\<open>indentSize\<close> is a positive whole number (the application passes 2); with 0 the
  source divides by zero into \<^verbatim>\<open>NaN\<close> or \<^verbatim>\<open>Infinity\<close>, which this model does not cover.
\<close>

definition parseIndentedTree :: "jsstring \<Rightarrow> nat \<Rightarrow> node list" where
  "parseIndentedTree input indentSize =
     children (root (foldl (parse_line indentSize)
       \<lparr>root = Node ROOT_TEXT [], stack = [(- 1, [])]\<rparr>
       (parse_lines_of indentSize input)))"

section \<open>renderAsciiTree\<close>

text \<open>The connector strings of the source, as code units.\<close>

definition TEE :: jsstring where \<comment> \<open>U+251C U+2500 SPACE\<close>
  "TEE = [9500, 9472, 32]"

definition ELBOW :: jsstring where \<comment> \<open>U+2514 U+2500 SPACE\<close>
  "ELBOW = [9492, 9472, 32]"

definition BAR :: jsstring where \<comment> \<open>U+2502\<close>
  "BAR = [9474]"

definition BAR_BLOCK :: jsstring where \<comment> \<open>U+2502 SPACE SPACE\<close>
  "BAR_BLOCK = [9474, 32, 32]"

definition BLANK_BLOCK :: jsstring where
  "BLANK_BLOCK = [32, 32, 32]"

text \<open>
  The inner function \<^verbatim>\<open>render\<close> pushes lines onto \<^verbatim>\<open>out\<close>; the model returns the
  lines it pushes, in order. \<open>render_children\<close> is its \<^verbatim>\<open>for\<close> loop over
  \<^verbatim>\<open>node.children\<close>: the child at the head is the last one when no child follows, and
  the loop pushes a separator after every child but the last.
\<close>

fun render :: "node \<Rightarrow> jsstring \<Rightarrow> bool \<Rightarrow> jsstring list"
  and render_children :: "node list \<Rightarrow> jsstring \<Rightarrow> jsstring list" where
  "render (Node t cs) prefix isLast =
     (prefix @ (if isLast then ELBOW else TEE) @ t) #
     (if cs = [] then []
      else (let childPrefix = prefix @ (if isLast then BLANK_BLOCK else BAR_BLOCK)
            in (childPrefix @ BAR) # render_children cs childPrefix))"
| "render_children [] childPrefix = []"
| "render_children (c # cs) childPrefix =
     render c childPrefix (cs = []) @
     (if cs \<noteq> [] then [childPrefix @ BAR] else []) @
     render_children cs childPrefix"

text \<open>
  The loop over the children of a root, \<^verbatim>\<open>root.children.forEach\<close>: it calls
  \<^verbatim>\<open>render\<close> with the empty prefix and pushes nothing between the children.
\<close>

fun render_root_children :: "node list \<Rightarrow> jsstring list" where
  "render_root_children [] = []"
| "render_root_children (c # cs) = render c [] (cs = []) @ render_root_children cs"

text \<open>The loop over the roots, \<^verbatim>\<open>nodes.forEach\<close>.\<close>

fun render_roots :: "node list \<Rightarrow> jsstring list" where
  "render_roots [] = []"
| "render_roots (r # rs) =
     node_text r #
     (if children r \<noteq> [] then BAR # render_root_children (children r) else []) @
     (if rs \<noteq> [] then [[]] else []) @
     render_roots rs"

definition renderAsciiTree :: "node list \<Rightarrow> jsstring" where
  "renderAsciiTree nodes = join_lines (render_roots nodes)"

section \<open>importJiraToIndented\<close>

text \<open>
  \<^verbatim>\<open>raw.replace(/^\s*\{code(?::[^}]*)?\}\s*\n?/i, "")\<close>. The expression matches at the
  start of the text only: white space, then \<^verbatim>\<open>{code\<close> in either case, then either
  \<^verbatim>\<open>}\<close> or a colon, the characters up to the next \<^verbatim>\<open>}\<close> (line breaks included) and
  that \<^verbatim>\<open>}\<close>, then all the white space that follows; \<^verbatim>\<open>\n?\<close> finds nothing left to
  take, a line feed being white space. \<open>match_open_fence\<close> gives what follows the
  closing brace.
\<close>

fun match_open_fence :: "jsstring \<Rightarrow> jsstring option" where
  "match_open_fence (c0 # c1 # c2 # c3 # c4 # r) =
     (if c0 = 123 \<and> (c1 = 99 \<or> c1 = 67) \<and> (c2 = 111 \<or> c2 = 79) \<and>
         (c3 = 100 \<or> c3 = 68) \<and> (c4 = 101 \<or> c4 = 69)
      then (case r of
              [] \<Rightarrow> None
            | x # r' \<Rightarrow>
                if x = 125 then Some r'
                else if x = 58 then
                  (case dropWhile (\<lambda>y. y \<noteq> 125) r' of [] \<Rightarrow> None | _ # r'' \<Rightarrow> Some r'')
                else None)
      else None)"
| "match_open_fence _ = None"

definition strip_open_fence :: "jsstring \<Rightarrow> jsstring" where
  "strip_open_fence raw =
     (case match_open_fence (dropWhile is_ws raw) of
        None \<Rightarrow> raw
      | Some r \<Rightarrow> dropWhile is_ws r)"

text \<open>
  \<^verbatim>\<open>.replace(/\n?\s*\{code\}\s*$/i, "")\<close>. A match ends at the end of the text, so it
  exists when the text without its trailing white space ends with \<^verbatim>\<open>{code}\<close> in either
  case; the leftmost match starts at the beginning of the white space before that
  \<^verbatim>\<open>{code}\<close>.
\<close>

definition is_close_fence :: "jsstring \<Rightarrow> bool" where
  "is_close_fence s \<longleftrightarrow>
     (case s of
        [c0, c1, c2, c3, c4, c5] \<Rightarrow>
          c0 = 123 \<and> (c1 = 99 \<or> c1 = 67) \<and> (c2 = 111 \<or> c2 = 79) \<and>
          (c3 = 100 \<or> c3 = 68) \<and> (c4 = 101 \<or> c4 = 69) \<and> c5 = 125
      | _ \<Rightarrow> False)"

definition strip_close_fence :: "jsstring \<Rightarrow> jsstring" where
  "strip_close_fence s =
     (let t = trimEnd s
      in if 6 \<le> length t \<and> is_close_fence (drop (length t - 6) t)
         then trimEnd (take (length t - 6) t)
         else s)"

text \<open>\<^verbatim>\<open>.replace(/\r\n/g, "\n")\<close>.\<close>

fun replace_crlf :: "jsstring \<Rightarrow> jsstring" where
  "replace_crlf (c # d # s) =
     (if c = 13 \<and> d = 10 then 10 # replace_crlf s else c # replace_crlf (d # s))"
| "replace_crlf s = s"

text \<open>The test \<^verbatim>\<open>/^[...]+$/.test(trimmed)\<close>, whose character class holds U+2502 and \<^verbatim>\<open>\s\<close>.\<close>

definition connector_only :: "jsstring \<Rightarrow> bool" where
  "connector_only s \<longleftrightarrow> s \<noteq> [] \<and> list_all (\<lambda>c. c = 9474 \<or> is_ws c) s"

text \<open>
  One turn of the loop over the lines: \<open>None\<close> when the turn pushes nothing onto
  \<^verbatim>\<open>out\<close>, \<open>Some l\<close> when it pushes \<open>l\<close>.
\<close>

definition import_line :: "nat \<Rightarrow> jsstring \<Rightarrow> jsstring option" where
  "import_line indentSize line =
     (let trimmed = trim line
      in if length trimmed = 0 then Some []
         else if connector_only trimmed then None
         else
           (let idxA = indexOf TEE line;
                idxB = indexOf ELBOW line;
                idx = (if idxA \<ge> 0 then idxA else idxB)
            in if idx < 0 then Some trimmed
               else
                 (let prefix = take (nat idx) line;
                      txt = trim (drop (nat (idx + 3)) line);
                      level = max 0 (int (length prefix) div 3 + 1)
                  in Some (replicate (nat level * indentSize) 32 @ txt))))"

text \<open>
  \<^verbatim>\<open>while (out.length && out[out.length - 1].trim() === "") out.pop()\<close>.
\<close>

definition pop_blank :: "jsstring list \<Rightarrow> jsstring list" where
  "pop_blank out = rev (dropWhile (\<lambda>l. trim l = []) (rev out))"

definition importJiraToIndented :: "jsstring \<Rightarrow> nat \<Rightarrow> jsstring" where
  "importJiraToIndented raw indentSize =
     (let withoutCode = strip_close_fence (strip_open_fence raw);
          lines = map trimEnd (split_lines (replace_crlf withoutCode));
          out = List.map_filter (import_line indentSize) lines
      in join_lines (pop_blank out))"

section \<open>flattenTree\<close>

text \<open>
  The fields \<^verbatim>\<open>id\<close> and \<^verbatim>\<open>text\<close> are named \<open>node_id\<close> and \<open>flat_text\<close>: \<open>id\<close> is the
  identity function of HOL and \<open>text\<close> a keyword.
\<close>

record flatnode =
  node_id :: nat
  flat_text :: jsstring
  depth :: nat
  parentId :: "nat option"
  childrenIds :: "nat list"

text \<open>
  \<^verbatim>\<open>walk\<close> threads the counter \<^verbatim>\<open>id\<close> and pushes onto \<^verbatim>\<open>flat\<close>: the model takes the
  next id and returns the entries pushed, in order, with the next id after the walk. The
  entry of a node is pushed before its children are walked; its \<^verbatim>\<open>childrenIds\<close> are
  filled in afterwards, through the reference the array keeps.
\<close>

fun walk :: "node \<Rightarrow> nat \<Rightarrow> nat option \<Rightarrow> nat \<Rightarrow> flatnode list \<times> nat"
  and walk_children :: "node list \<Rightarrow> nat \<Rightarrow> nat \<Rightarrow> nat \<Rightarrow> flatnode list \<times> nat list \<times> nat" where
  "walk (Node t cs) d parent next =
     (case walk_children cs (d + 1) next (next + 1) of
        (below, ids, next') \<Rightarrow>
          (\<lparr>node_id = next, flat_text = t, depth = d, parentId = parent, childrenIds = ids\<rparr>
             # below,
           next'))"
| "walk_children [] d myId next = ([], [], next)"
| "walk_children (c # cs) d myId next =
     (case walk c d (Some myId) next of
        (es, next1) \<Rightarrow>
          (case walk_children cs d myId next1 of
             (es', ids, next2) \<Rightarrow> (es @ es', next # ids, next2)))"

fun walk_roots :: "node list \<Rightarrow> nat \<Rightarrow> flatnode list" where
  "walk_roots [] next = []"
| "walk_roots (r # rs) next =
     (case walk r 0 None next of (es, next') \<Rightarrow> es @ walk_roots rs next')"

definition flattenTree :: "node list \<Rightarrow> flatnode list" where
  "flattenTree roots = walk_roots roots 1"

section \<open>Numbers\<close>

text \<open>
  A JavaScript number is an IEEE 754 double. The model keeps the three special values and
  takes a finite value as a rational number: the operations below follow IEEE 754 on
  \<^verbatim>\<open>NaN\<close> and the infinities and are exact on finite values. They agree with the doubles
  wherever every finite value met is a whole number of small size, as in the layout of an
  empty array; the rounding of the doubles and the negative zero are not modelled.
  \<^verbatim>\<open>undefined\<close> in an arithmetic position is \<^verbatim>\<open>NaN\<close>.
\<close>

datatype jsnum = Fin rat | PInf | NInf | NaN

fun js_neg :: "jsnum \<Rightarrow> jsnum" where
  "js_neg (Fin a) = Fin (- a)"
| "js_neg PInf = NInf"
| "js_neg NInf = PInf"
| "js_neg NaN = NaN"

fun js_add :: "jsnum \<Rightarrow> jsnum \<Rightarrow> jsnum" where
  "js_add NaN b = NaN"
| "js_add a NaN = NaN"
| "js_add (Fin a) (Fin b) = Fin (a + b)"
| "js_add PInf NInf = NaN"
| "js_add NInf PInf = NaN"
| "js_add PInf b = PInf"
| "js_add NInf b = NInf"
| "js_add a PInf = PInf"
| "js_add a NInf = NInf"

definition js_sub :: "jsnum \<Rightarrow> jsnum \<Rightarrow> jsnum" where
  "js_sub a b = js_add a (js_neg b)"

text \<open>The sign of a number that is not \<^verbatim>\<open>NaN\<close>: \<open>-1\<close>, \<open>0\<close> or \<open>1\<close>.\<close>

fun js_sign :: "jsnum \<Rightarrow> int" where
  "js_sign (Fin a) = (if a < 0 then - 1 else if a = 0 then 0 else 1)"
| "js_sign PInf = 1"
| "js_sign NInf = - 1"
| "js_sign NaN = 0"

fun js_mul :: "jsnum \<Rightarrow> jsnum \<Rightarrow> jsnum" where
  "js_mul NaN b = NaN"
| "js_mul a NaN = NaN"
| "js_mul (Fin a) (Fin b) = Fin (a * b)"
| "js_mul a b =
     (if js_sign a * js_sign b = 0 then NaN
      else if js_sign a * js_sign b > 0 then PInf else NInf)"

fun js_div :: "jsnum \<Rightarrow> jsnum \<Rightarrow> jsnum" where
  "js_div NaN b = NaN"
| "js_div a NaN = NaN"
| "js_div (Fin a) (Fin b) =
     (if b \<noteq> 0 then Fin (a / b)
      else if a = 0 then NaN else if a > 0 then PInf else NInf)"
| "js_div (Fin a) b = Fin 0"
| "js_div a (Fin b) = (if (js_sign a > 0) = (0 \<le> b) then PInf else NInf)"
| "js_div a b = NaN"

text \<open>\<^verbatim>\<open>a < b\<close> and \<^verbatim>\<open>a <= b\<close>: false when either side is \<^verbatim>\<open>NaN\<close>.\<close>

fun js_lt :: "jsnum \<Rightarrow> jsnum \<Rightarrow> bool" where
  "js_lt NaN b = False"
| "js_lt a NaN = False"
| "js_lt (Fin a) (Fin b) = (a < b)"
| "js_lt PInf b = False"
| "js_lt a NInf = False"
| "js_lt NInf b = True"
| "js_lt a PInf = True"

fun js_le :: "jsnum \<Rightarrow> jsnum \<Rightarrow> bool" where
  "js_le NaN b = False"
| "js_le a NaN = False"
| "js_le a b = (a = b \<or> js_lt a b)"

text \<open>\<^verbatim>\<open>Math.max\<close> and \<^verbatim>\<open>Math.min\<close> of two numbers, and of a list of arguments.\<close>

definition js_max2 :: "jsnum \<Rightarrow> jsnum \<Rightarrow> jsnum" where
  "js_max2 a b = (if a = NaN \<or> b = NaN then NaN else if js_lt a b then b else a)"

definition js_min2 :: "jsnum \<Rightarrow> jsnum \<Rightarrow> jsnum" where
  "js_min2 a b = (if a = NaN \<or> b = NaN then NaN else if js_lt b a then b else a)"

definition Math_max :: "jsnum list \<Rightarrow> jsnum" where
  "Math_max xs = foldl js_max2 NInf xs"

definition Math_min :: "jsnum list \<Rightarrow> jsnum" where
  "Math_min xs = foldl js_min2 PInf xs"

text \<open>A number in a condition: \<^verbatim>\<open>0\<close> and \<^verbatim>\<open>NaN\<close> are false.\<close>

definition truthy :: "jsnum \<Rightarrow> bool" where
  "truthy a \<longleftrightarrow> a \<noteq> Fin 0 \<and> a \<noteq> NaN"

section \<open>wrapTextToLinesPx\<close>

text \<open>\<^verbatim>\<open>text.replace(/\s+/g, " ")\<close>: every run of white space becomes one space.\<close>

function collapse_ws :: "jsstring \<Rightarrow> jsstring" where
  "collapse_ws [] = []"
| "collapse_ws (c # s) =
     (if is_ws c then 32 # collapse_ws (dropWhile is_ws s) else c # collapse_ws s)"
  by pat_completeness auto
termination
  by (relation "measure length") (auto simp: length_dropWhile_le less_Suc_eq_le)

text \<open>\<^verbatim>\<open>clean.split(" ")\<close>.\<close>

fun split_spaces :: "jsstring \<Rightarrow> jsstring list" where
  "split_spaces [] = [[]]"
| "split_spaces (c # s) =
     (if c = 32 then [] # split_spaces s
      else (case split_spaces s of
              [] \<Rightarrow> [[c]]
            | l # ls \<Rightarrow> (c # l) # ls))"

text \<open>The soft break characters \<^verbatim>\<open>- / : +\<close>.\<close>

definition is_soft_break :: "jschar \<Rightarrow> bool" where
  "is_soft_break c \<longleftrightarrow> c = 45 \<or> c = 47 \<or> c = 58 \<or> c = 43"

text \<open>
  \<^verbatim>\<open>word.split(/([\-\/:\+])/g).filter((p) => p.length > 0)\<close>: the word cut into its
  soft break characters, each alone, and the runs of other characters between them.
\<close>

fun soft_parts :: "jsstring \<Rightarrow> jsstring list" where
  "soft_parts [] = []"
| "soft_parts (c # s) =
     (if is_soft_break c then [c] # soft_parts s
      else (case soft_parts s of
              [] \<Rightarrow> [[c]]
            | p # ps \<Rightarrow> if is_soft_break (hd p) then [c] # p # ps else (c # p) # ps))"

text \<open>The loop of \<^verbatim>\<open>splitWordWithSoftBreaks\<close> over the parts, \<open>out\<close> being its array.\<close>

fun reattach :: "jsstring list \<Rightarrow> jsstring list \<Rightarrow> jsstring list" where
  "reattach out [] = out"
| "reattach out (p # ps) =
     (if length p = 1 \<and> is_soft_break (hd p)
      then (if length out = 0 then reattach [p] ps
            else reattach (butlast out @ [last out @ p]) ps)
      else reattach (out @ [p]) ps)"

definition splitWordWithSoftBreaks :: "jsstring \<Rightarrow> jsstring list" where
  "splitWordWithSoftBreaks word = reattach [] (soft_parts word)"

text \<open>
  \<^verbatim>\<open>for (const ch of token)\<close> walks code points: a high surrogate followed by a low one
  is one step.
\<close>

fun code_points :: "jsstring \<Rightarrow> jsstring list" where
  "code_points (c # d # s) =
     (if 55296 \<le> c \<and> c \<le> 56319 \<and> 56320 \<le> d \<and> d \<le> 57343 then [c, d] # code_points s
      else [c] # code_points (d # s))"
| "code_points [c] = [[c]]"
| "code_points [] = []"

text \<open>
  The state of the wrapper is its array \<^verbatim>\<open>lines\<close> and its string \<^verbatim>\<open>current\<close>.
  \<open>measureTextPx\<close> is the source's function at the font of the layout: the width the
  browser's canvas reports for a text.
\<close>

type_synonym wrap_state = "jsstring list \<times> jsstring"

definition wrap_push :: "wrap_state \<Rightarrow> wrap_state" where
  "wrap_push st =
     (case st of (lines, current) \<Rightarrow>
        (let t = trim current in (if length t \<noteq> 0 then lines @ [t] else lines, [])))"

text \<open>The character loop of \<^verbatim>\<open>pushToken\<close>, on \<^verbatim>\<open>lines\<close> and \<^verbatim>\<open>chunk\<close>.\<close>

fun chunk_loop ::
  "(jsstring \<Rightarrow> jsnum) \<Rightarrow> jsnum \<Rightarrow> jsstring list \<Rightarrow> jsstring \<Rightarrow> jsstring list \<Rightarrow>
   jsstring list \<times> jsstring" where
  "chunk_loop measureTextPx maxWidthPx lines chunk [] = (lines, chunk)"
| "chunk_loop measureTextPx maxWidthPx lines chunk (ch # chs) =
     (let next = chunk @ ch
      in if js_le (measureTextPx next) maxWidthPx then chunk_loop measureTextPx maxWidthPx lines next chs
         else chunk_loop measureTextPx maxWidthPx
                (if length chunk \<noteq> 0 then lines @ [chunk] else lines) ch chs)"

definition pushToken ::
  "(jsstring \<Rightarrow> jsnum) \<Rightarrow> jsnum \<Rightarrow> wrap_state \<Rightarrow> jsstring \<Rightarrow> bool \<Rightarrow> wrap_state" where
  "pushToken measureTextPx maxWidthPx st token withLeadingSpace =
     (case st of (lines, current) \<Rightarrow>
        (let prefixed = (if withLeadingSpace \<and> length current \<noteq> 0 then 32 # token else token);
             candidate = (if current \<noteq> [] then current @ prefixed else token)
         in if js_le (measureTextPx candidate) maxWidthPx then (lines, candidate)
            else
              (let st1 = (if length (trim current) \<noteq> 0 then wrap_push st else st)
               in if length (trim current) \<noteq> 0 \<and> js_le (measureTextPx token) maxWidthPx
                  then (fst st1, token)
                  else
                    (case chunk_loop measureTextPx maxWidthPx (fst st1) [] (code_points token) of
                       (lines2, chunk) \<Rightarrow>
                         if length chunk \<noteq> 0 \<and> length (trim (snd st1)) = 0
                         then (lines2 @ [chunk], [])
                         else (lines2, [])))))"

text \<open>The inner loop over the parts of a word: only the first part may take a space.\<close>

fun push_parts ::
  "(jsstring \<Rightarrow> jsnum) \<Rightarrow> jsnum \<Rightarrow> wrap_state \<Rightarrow> jsstring list \<Rightarrow> bool \<Rightarrow> wrap_state" where
  "push_parts measureTextPx maxWidthPx st [] first = st"
| "push_parts measureTextPx maxWidthPx st (p # ps) first =
     push_parts measureTextPx maxWidthPx (pushToken measureTextPx maxWidthPx st p first) ps False"

definition wrapTextToLinesPx ::
  "(jsstring \<Rightarrow> jsnum) \<Rightarrow> jsstring \<Rightarrow> jsnum \<Rightarrow> jsstring list" where
  "wrapTextToLinesPx measureTextPx txt maxWidthPx =
     (let clean = trim (collapse_ws txt)
      in if clean = [] then [[]]
         else
           (let st = foldl (\<lambda>st w. push_parts measureTextPx maxWidthPx st (splitWordWithSoftBreaks w) True)
                       ([], []) (split_spaces clean);
                lines = fst (wrap_push st)
            in if length lines \<noteq> 0 then lines else [clean]))"

section \<open>layoutTreeForSvg\<close>

record positioned_node =
  pnode :: flatnode
  px :: jsnum
  py :: jsnum
  pw :: jsnum
  ph :: jsnum
  plines :: "jsstring list"

record layout_result =
  positioned :: "positioned_node list"
  width :: jsnum
  height :: jsnum

text \<open>The constants of the source.\<close>

definition MIN_NODE_W :: jsnum where "MIN_NODE_W = Fin 120"
definition MAX_NODE_W :: jsnum where "MAX_NODE_W = Fin 210"
definition PADDING_X :: jsnum where "PADDING_X = Fin 12"
definition PADDING_Y :: jsnum where "PADDING_Y = Fin 10"
definition LINE_H :: jsnum where "LINE_H = Fin 16"
definition MAX_LINES :: nat where "MAX_LINES = 7"
definition GAP_X :: jsnum where "GAP_X = Fin 54"
definition GAP_Y :: jsnum where "GAP_Y = Fin 50"
definition MARGIN :: jsnum where "MARGIN = Fin 20"
definition MIN_CANVAS_W :: jsnum where "MIN_CANVAS_W = Fin 900"
definition MIN_CANVAS_H :: jsnum where "MIN_CANVAS_H = Fin 600"

definition clampW :: "jsnum \<Rightarrow> jsnum" where
  "clampW v = Math_max [MIN_NODE_W, Math_min [MAX_NODE_W, v]]"

text \<open>
  \<^verbatim>\<open>if (lines.length > MAX_LINES) lines = [...lines.slice(0, MAX_LINES - 1),
  lines[MAX_LINES - 1] + " \<dots>"]\<close>, the ellipsis being U+2026.
\<close>

definition cap_lines :: "jsstring list \<Rightarrow> jsstring list" where
  "cap_lines ls =
     (if length ls > MAX_LINES
      then take (MAX_LINES - 1) ls @ [ls ! (MAX_LINES - 1) @ [32, 8230]]
      else ls)"

text \<open>
  One turn of the sizing loop: the lines, the width and the height that are stored for a
  node under its id.
\<close>

definition size_node :: "(jsstring \<Rightarrow> jsnum) \<Rightarrow> flatnode \<Rightarrow> jsstring list \<times> jsnum \<times> jsnum" where
  "size_node measureTextPx n =
     (let clean = trim (collapse_ws (flat_text n));
          oneLineW = clampW (js_add (measureTextPx clean) (js_mul PADDING_X (Fin 2)));
          innerW = Math_max [Fin 40, js_sub oneLineW (js_mul PADDING_X (Fin 2))];
          lines1 = cap_lines (wrapTextToLinesPx measureTextPx clean innerW);
          needsWrap = js_lt MAX_NODE_W (js_add (measureTextPx clean) (js_mul PADDING_X (Fin 2)));
          finalW = (if needsWrap then MAX_NODE_W else oneLineW);
          finalInnerW = Math_max [Fin 40, js_sub finalW (js_mul PADDING_X (Fin 2))];
          lines2 = (if needsWrap then cap_lines (wrapTextToLinesPx measureTextPx clean finalInnerW)
                    else lines1)
      in (lines2, finalW,
          js_add (js_add (js_mul PADDING_Y (Fin 2)) (js_mul (Fin (of_nat (length lines2))) LINE_H))
            (Fin 8)))"

text \<open>
  A \<^verbatim>\<open>Map\<close> keyed by node ids is a partial function; a later \<^verbatim>\<open>set\<close> of the same key
  replaces the earlier one.
\<close>

definition byId_of :: "flatnode list \<Rightarrow> nat \<rightharpoonup> flatnode" where
  "byId_of flat = foldl (\<lambda>m n. m(node_id n \<mapsto> n)) Map.empty flat"

definition sizes_of ::
  "(jsstring \<Rightarrow> jsnum) \<Rightarrow> flatnode list \<Rightarrow> nat \<rightharpoonup> jsstring list \<times> jsnum \<times> jsnum" where
  "sizes_of measureTextPx flat =
     foldl (\<lambda>m n. m(node_id n \<mapsto> size_node measureTextPx n)) Map.empty flat"

text \<open>\<^verbatim>\<open>(byId.get(id)?.childrenIds.length ?? 0) === 0\<close>.\<close>

definition isLeaf :: "(nat \<rightharpoonup> flatnode) \<Rightarrow> nat \<Rightarrow> bool" where
  "isLeaf byId i = ((case byId i of None \<Rightarrow> 0 | Some n \<Rightarrow> length (childrenIds n)) = 0)"

text \<open>
  \<^verbatim>\<open>assignLeaves\<close> and \<^verbatim>\<open>computeX\<close> recurse through the ids of the array, which may
  form a cycle; the call stack of the source then overflows. The model counts the depth of
  the recursion down from \<open>fuel\<close> and gives \<open>None\<close> when it is used up or when the source
  throws. The state of \<^verbatim>\<open>assignLeaves\<close> is the map \<^verbatim>\<open>leafX\<close> and \<^verbatim>\<open>leafCursor\<close>.
\<close>

fun assignLeaves ::
  "(nat \<rightharpoonup> flatnode) \<Rightarrow> nat \<Rightarrow> (nat \<rightharpoonup> nat) \<times> nat \<Rightarrow> nat \<Rightarrow> ((nat \<rightharpoonup> nat) \<times> nat) option"
  and assignLeaves_each ::
  "(nat \<rightharpoonup> flatnode) \<Rightarrow> nat \<Rightarrow> (nat \<rightharpoonup> nat) \<times> nat \<Rightarrow> nat list \<Rightarrow> ((nat \<rightharpoonup> nat) \<times> nat) option"
  where
  "assignLeaves byId 0 st i = None"
| "assignLeaves byId (Suc fuel) st i =
     (if isLeaf byId i then Some ((fst st)(i \<mapsto> snd st), snd st + 1)
      else (case byId i of
              None \<Rightarrow> None
            | Some n \<Rightarrow> assignLeaves_each byId fuel st (childrenIds n)))"
| "assignLeaves_each byId fuel st [] = Some st"
| "assignLeaves_each byId fuel st (i # is) =
     (case assignLeaves byId fuel st i of
        None \<Rightarrow> None
      | Some st' \<Rightarrow> assignLeaves_each byId fuel st' is)"

text \<open>
  \<^verbatim>\<open>computeX\<close> fills \<^verbatim>\<open>xUnit\<close>. Reading \<^verbatim>\<open>childrenIds\<close> of an id that \<^verbatim>\<open>byId\<close> does
  not hold throws. A value that is missing from \<^verbatim>\<open>leafX\<close> or \<^verbatim>\<open>xUnit\<close> is
  \<^verbatim>\<open>undefined\<close>, which every later use turns into \<^verbatim>\<open>NaN\<close>.
\<close>

definition unit_of :: "(nat \<rightharpoonup> jsnum) \<Rightarrow> nat \<Rightarrow> jsnum" where
  "unit_of xUnit i = (case xUnit i of None \<Rightarrow> NaN | Some u \<Rightarrow> u)"

fun computeX ::
  "(nat \<rightharpoonup> flatnode) \<Rightarrow> (nat \<rightharpoonup> nat) \<Rightarrow> nat \<Rightarrow> (nat \<rightharpoonup> jsnum) \<Rightarrow> nat \<Rightarrow> (nat \<rightharpoonup> jsnum) option"
  and computeX_each ::
  "(nat \<rightharpoonup> flatnode) \<Rightarrow> (nat \<rightharpoonup> nat) \<Rightarrow> nat \<Rightarrow> (nat \<rightharpoonup> jsnum) \<Rightarrow> nat list \<Rightarrow> (nat \<rightharpoonup> jsnum) option"
  where
  "computeX byId leafX 0 xUnit i = None"
| "computeX byId leafX (Suc fuel) xUnit i =
     (case byId i of
        None \<Rightarrow> None
      | Some n \<Rightarrow>
          (case computeX_each byId leafX fuel xUnit (childrenIds n) of
             None \<Rightarrow> None
           | Some xUnit' \<Rightarrow>
               if isLeaf byId i
               then Some (xUnit'(i \<mapsto> (case leafX i of None \<Rightarrow> NaN | Some k \<Rightarrow> Fin (of_nat k))))
               else
                 (let xs = map (unit_of xUnit') (childrenIds n)
                  in Some (xUnit'(i \<mapsto> js_div (foldl js_add (Fin 0) xs)
                                         (Fin (of_nat (length xs))))))))"
| "computeX_each byId leafX fuel xUnit [] = Some xUnit"
| "computeX_each byId leafX fuel xUnit (i # is) =
     (case computeX byId leafX fuel xUnit i of
        None \<Rightarrow> None
      | Some xUnit' \<Rightarrow> computeX_each byId leafX fuel xUnit' is)"

text \<open>
  \<^verbatim>\<open>maxHPerDepth\<close>: the array starts with \<open>maxDepth + 1\<close> zeros; every depth of the array
  is at most \<open>maxDepth\<close>.
\<close>

definition maxHPerDepth_of ::
  "(nat \<rightharpoonup> jsstring list \<times> jsnum \<times> jsnum) \<Rightarrow> flatnode list \<Rightarrow> nat \<Rightarrow> jsnum list" where
  "maxHPerDepth_of sizes flat maxDepth =
     foldl (\<lambda>a n. a[depth n := Math_max [a ! depth n,
                      (case sizes (node_id n) of None \<Rightarrow> NaN | Some (ls, wd, ht) \<Rightarrow> ht)]])
       (replicate (maxDepth + 1) (Fin 0)) flat"

text \<open>\<^verbatim>\<open>yTopByDepth\<close>: the loop over the depths, \<open>accY\<close> being its running sum.\<close>

fun yTopByDepth_of :: "jsnum \<Rightarrow> jsnum list \<Rightarrow> jsnum list" where
  "yTopByDepth_of accY [] = []"
| "yTopByDepth_of accY (m # ms) = accY # yTopByDepth_of (js_add accY (js_add m GAP_Y)) ms"

definition pxX :: "jsnum \<Rightarrow> jsnum" where
  "pxX u = js_add (Fin 30) (js_mul u (js_add MAX_NODE_W GAP_X))"

definition place ::
  "(nat \<rightharpoonup> jsstring list \<times> jsnum \<times> jsnum) \<Rightarrow> (nat \<rightharpoonup> jsnum) \<Rightarrow> jsnum list \<Rightarrow> flatnode \<Rightarrow>
   positioned_node" where
  "place sizes xUnit yTopByDepth n =
     (case (case sizes (node_id n) of None \<Rightarrow> ([], NaN, NaN) | Some s \<Rightarrow> s) of
        (ls, wd, ht) \<Rightarrow>
          \<lparr>pnode = n,
           px = js_sub (pxX (unit_of xUnit (node_id n))) (js_div wd (Fin 2)),
           py = yTopByDepth ! depth n,
           pw = wd, ph = ht, plines = ls\<rparr>)"

text \<open>The two shifts: by \<^verbatim>\<open>dx\<close> and \<^verbatim>\<open>dy\<close>, and by \<^verbatim>\<open>dxCenter\<close> with \<^verbatim>\<open>y\<close> kept.\<close>

definition shift :: "jsnum \<Rightarrow> jsnum \<Rightarrow> positioned_node \<Rightarrow> positioned_node" where
  "shift dx dy p = p\<lparr>px := js_add (px p) dx, py := js_add (py p) dy\<rparr>"

definition shift_x :: "jsnum \<Rightarrow> positioned_node \<Rightarrow> positioned_node" where
  "shift_x dxCenter p = p\<lparr>px := js_add (px p) dxCenter\<rparr>"

text \<open>
  The function. \<open>None\<close> stands for an exception of the source. The roots are walked with
  \<open>length flat + 1\<close> levels of recursion, one more than a chain of distinct ids of the
  array can be long. The field \<^verbatim>\<open>consts\<close> of the result, which repeats constants, is left
  out.
\<close>

definition layoutTreeForSvg :: "(jsstring \<Rightarrow> jsnum) \<Rightarrow> flatnode list \<Rightarrow> layout_result option" where
  "layoutTreeForSvg measureTextPx flat =
     (let byId = byId_of flat;
          roots = map node_id (filter (\<lambda>n. parentId n = None) flat);
          sizes = sizes_of measureTextPx flat;
          fuel = length flat + 1
      in case assignLeaves_each byId fuel (Map.empty, 0) roots of
           None \<Rightarrow> None
         | Some (leafX, leafCursor) \<Rightarrow>
             (case computeX_each byId leafX fuel Map.empty roots of
                None \<Rightarrow> None
              | Some xUnit \<Rightarrow>
                  (let maxDepth = foldl max 0 (map depth flat);
                       maxHPerDepth = maxHPerDepth_of sizes flat maxDepth;
                       yTopByDepth = yTopByDepth_of (Fin 30) maxHPerDepth;
                       positioned0 = map (place sizes xUnit yTopByDepth) flat;
                       minX = Math_min (map px positioned0);
                       minY = Math_min (map py positioned0);
                       dx = (if js_lt minX MARGIN then js_sub MARGIN minX else Fin 0);
                       dy = (if js_lt minY MARGIN then js_sub MARGIN minY else Fin 0);
                       positioned1 = (if truthy dx \<or> truthy dy then map (shift dx dy) positioned0
                                      else positioned0);
                       contentMinX = Math_min (map px positioned1);
                       contentMaxX = Math_max (map (\<lambda>p. js_add (px p) (pw p)) positioned1);
                       contentWidth = js_sub contentMaxX contentMinX;
                       canvasWidth = js_add (Math_max [contentMaxX, MIN_CANVAS_W]) MARGIN;
                       desiredMinX = Math_max [MARGIN, js_div (js_sub canvasWidth contentWidth) (Fin 2)];
                       dxCenter = js_sub desiredMinX contentMinX;
                       positioned2 = (if truthy dxCenter then map (shift_x dxCenter) positioned1
                                      else positioned1);
                       maxX = Math_max (map (\<lambda>p. js_add (px p) (pw p)) positioned2 @ [MIN_CANVAS_W]);
                       maxY = Math_max (map (\<lambda>p. js_add (py p) (ph p)) positioned2 @ [MIN_CANVAS_H])
                   in Some \<lparr>positioned = positioned2,
                            width = js_add maxX MARGIN,
                            height = js_add maxY MARGIN\<rparr>)))"

section \<open>The parser's stack as a list of open frames\<close>

text \<open>
  A proof device, not part of the source: the same loop written without references. A
  frame is a node that is still open together with its level; a frame that is popped is
  appended to the children of the frame below it. \<open>abs_state\<close> maps a list of frames to
  the state of \<open>parse_line\<close> it stands for (the tree with every frame closed, and the
  path of every frame), and \<open>parse_line_abs\<close> below shows that one turn of the source's
  loop is one \<open>push_line\<close>.
\<close>

type_synonym frame = "int \<times> node"

fun add_child :: "node \<Rightarrow> node \<Rightarrow> node" where
  "add_child new (Node t cs) = Node t (cs @ [new])"

fun subtree_at :: "nat list \<Rightarrow> node \<Rightarrow> node" where
  "subtree_at [] n = n"
| "subtree_at (i # p) n = subtree_at p (children n ! i)"

fun map_at :: "nat list \<Rightarrow> (node \<Rightarrow> node) \<Rightarrow> node \<Rightarrow> node" where
  "map_at [] g n = g n"
| "map_at (i # p) g (Node t cs) = Node t (cs[i := map_at p g (cs ! i)])"

fun collapse_into :: "node \<Rightarrow> frame list \<Rightarrow> node" where
  "collapse_into n [] = n"
| "collapse_into n ((l, p) # fs) = collapse_into (add_child n p) fs"

fun collapse :: "frame list \<Rightarrow> node" where
  "collapse [] = Node ROOT_TEXT []"
| "collapse ((l, n) # fs) = collapse_into n fs"

fun path_above :: "frame list \<Rightarrow> nat list" where
  "path_above [] = []"
| "path_above ((l, n) # fs) = path_above fs @ [length (children n)]"

fun stack_of :: "frame list \<Rightarrow> (int \<times> nat list) list" where
  "stack_of [] = []"
| "stack_of ((l, n) # fs) = (l, path_above fs) # stack_of fs"

definition abs_state :: "frame list \<Rightarrow> parse_state" where
  "abs_state fs = \<lparr>root = collapse fs, stack = stack_of fs\<rparr>"

fun pop_to :: "int \<Rightarrow> frame list \<Rightarrow> frame list" where
  "pop_to lev ((l, n) # (l', p) # fs) =
     (if l \<ge> lev then pop_to lev ((l', add_child n p) # fs) else (l, n) # (l', p) # fs)"
| "pop_to lev fs = fs"

definition push_line :: "frame list \<Rightarrow> int \<times> jsstring \<Rightarrow> frame list" where
  "push_line fs lt = (fst lt, Node (snd lt) []) # pop_to (fst lt) fs"

definition line_level :: "nat \<Rightarrow> jsstring \<Rightarrow> int" where
  "line_level indentSize raw = int (countLeadingSpaces raw div indentSize)"

definition frames_ok :: "frame list \<Rightarrow> bool" where
  "frames_ok fs \<longleftrightarrow> fs \<noteq> [] \<and> last (map fst fs) < 0"

fun labels_of :: "node \<Rightarrow> jsstring list"
  and forest_labels :: "node list \<Rightarrow> jsstring list" where
  "labels_of (Node t cs) = t # forest_labels cs"
| "forest_labels [] = []"
| "forest_labels (c # cs) = labels_of c @ forest_labels cs"

definition build_forest :: "(int \<times> jsstring) list \<Rightarrow> node list" where
  "build_forest ls = children (collapse (foldl push_line [(- 1, Node ROOT_TEXT [])] ls))"

definition leveled :: "nat \<Rightarrow> jsstring \<Rightarrow> int \<times> jsstring" where
  "leveled indentSize raw = (line_level indentSize raw, trim raw)"

text \<open>
  What the parser guarantees of a label: it is not empty, it neither starts nor ends with
  white space, and it holds no line feed and no tab.
\<close>

definition clean_label :: "jsstring \<Rightarrow> bool" where
  "clean_label t \<longleftrightarrow>
     t \<noteq> [] \<and> \<not> is_ws (hd t) \<and> \<not> is_ws (last t) \<and> 10 \<notin> set t \<and> 9 \<notin> set t"

text \<open>
  The lines of a forest: its nodes in pre-order, each with its depth. \<open>node_closes\<close>
  says that pushing the lines of a node and closing its frames appends the node to the
  frame it was started on.
\<close>

fun flat_node :: "nat \<Rightarrow> node \<Rightarrow> (int \<times> jsstring) list"
  and flat_forest :: "nat \<Rightarrow> node list \<Rightarrow> (int \<times> jsstring) list" where
  "flat_node d (Node t cs) = (int d, t) # flat_forest (Suc d) cs"
| "flat_forest d [] = []"
| "flat_forest d (c # cs) = flat_node d c @ flat_forest d cs"

definition node_closes :: "node \<Rightarrow> bool" where
  "node_closes c \<longleftrightarrow>
     (\<forall>d l p gs. l < int d \<longrightarrow>
        pop_to (int d) (foldl push_line ((l, p) # gs) (flat_node d c)) = (l, add_child c p) # gs)"

text \<open>
  Who is whose child. \<open>parents_forest None 0 roots\<close> lists, for the nodes of a forest in
  pre-order, the pre-order index of the parent of each node, \<open>None\<close> for a root. The
  nodes of the parsed forest are in pre-order the lines of the input, so the index of a
  node is the index of its line.

  \<open>line_parent levels i\<close> is the nearest line before line \<open>i\<close> whose level is smaller
  than the level of line \<open>i\<close>, \<open>None\<close> when there is none. It is the frame that the pop
  loop of \<^verbatim>\<open>parseIndentedTree\<close> leaves on top of the stack: the loop removes every frame
  whose level is not smaller.

  \<open>nest\<close>, \<open>near\<close> and \<open>spec_parents\<close> are devices of the proof: \<open>nest\<close> builds the forest
  by grouping under every line the lines that follow it while they are deeper.
\<close>

fun parents_node :: "nat option \<Rightarrow> nat \<Rightarrow> node \<Rightarrow> nat option list"
  and parents_forest :: "nat option \<Rightarrow> nat \<Rightarrow> node list \<Rightarrow> nat option list" where
  "parents_node par i (Node t cs) = par # parents_forest (Some i) (Suc i) cs"
| "parents_forest par i [] = []"
| "parents_forest par i (c # cs) =
     parents_node par i c @ parents_forest par (i + length (labels_of c)) cs"

definition line_parent :: "int list \<Rightarrow> nat \<Rightarrow> nat option" where
  "line_parent levels i =
     (case filter (\<lambda>j. levels ! j < levels ! i) (rev [0..<i]) of [] \<Rightarrow> None | j # _ \<Rightarrow> Some j)"

function nest :: "(int \<times> jsstring) list \<Rightarrow> node list" where
  "nest [] = []"
| "nest ((l, t) # ls) =
     Node t (nest (takeWhile (\<lambda>x. l < fst x) ls)) # nest (dropWhile (\<lambda>x. l < fst x) ls)"
  by pat_completeness auto
termination
  by (relation "measure length") (auto simp: less_Suc_eq_le length_takeWhile_le length_dropWhile_le)

fun near :: "int \<Rightarrow> int list \<Rightarrow> nat option" where
  "near v [] = None"
| "near v (l # r) = (if l < v then Some (length r) else near v r)"

fun spec_parents :: "int list \<Rightarrow> int list \<Rightarrow> nat option list" where
  "spec_parents rpre [] = []"
| "spec_parents rpre (v # vs) = near v rpre # spec_parents (v # rpre) vs"

section \<open>Notions for the round trip\<close>

text \<open>A label holds no connector marker: both searches of the importer find nothing.\<close>

definition no_marker :: "jsstring \<Rightarrow> bool" where
  "no_marker t \<longleftrightarrow> indexOf TEE t < 0 \<and> indexOf ELBOW t < 0"

text \<open>
  No last child below the node, at any depth, has a label that holds the tee marker. The
  last child is the one the renderer draws with the elbow.
\<close>

fun last_tee_free :: "node \<Rightarrow> bool" and last_tee_free_children :: "node list \<Rightarrow> bool" where
  "last_tee_free (Node t cs) = last_tee_free_children cs"
| "last_tee_free_children [] = True"
| "last_tee_free_children (c # cs) =
     ((cs \<noteq> [] \<or> indexOf TEE (node_text c) < 0) \<and> last_tee_free c \<and> last_tee_free_children cs)"

text \<open>
  The prefix of a rendered line at depth \<open>k + 1\<close>: \<open>k\<close> blocks of three code units, each
  a bar or a space.
\<close>

definition is_prefix :: "nat \<Rightarrow> jsstring \<Rightarrow> bool" where
  "is_prefix k p \<longleftrightarrow> length p = 3 * k \<and> set p \<subseteq> {9474, 32}"

text \<open>The line the importer writes for a label at a level.\<close>

definition indent :: "nat \<Rightarrow> int \<times> jsstring \<Rightarrow> jsstring" where
  "indent n lt = replicate (nat (fst lt) * n) 32 @ snd lt"

text \<open>A line without line feed that does not end with white space.\<close>

definition nice_line :: "jsstring \<Rightarrow> bool" where
  "nice_line l \<longleftrightarrow> 10 \<notin> set l \<and> (l = [] \<or> \<not> is_ws (last l))"

text \<open>
  What the importer makes of the rendered roots: the indented lines of every root, and a
  blank line between two roots.
\<close>

fun import_roots :: "nat \<Rightarrow> node list \<Rightarrow> jsstring list" where
  "import_roots n [] = []"
| "import_roots n (r # rs) =
     map (indent n) (flat_node 0 r) @ (if rs \<noteq> [] then [[]] else []) @ import_roots n rs"

text \<open>
  The importer turns the rendered lines \<open>ls\<close> into the indented lines of \<open>flat\<close>, and
  every line of \<open>ls\<close> is nice.
\<close>

definition rendered_ok :: "nat \<Rightarrow> jsstring list \<Rightarrow> (int \<times> jsstring) list \<Rightarrow> bool" where
  "rendered_ok n ls flat \<longleftrightarrow>
     List.map_filter (import_line n) ls = map (indent n) flat \<and> (\<forall>l \<in> set ls. nice_line l)"

definition node_renders :: "nat \<Rightarrow> node \<Rightarrow> bool" where
  "node_renders n c \<longleftrightarrow>
     (\<forall>k p b. is_prefix k p \<longrightarrow> (b \<longrightarrow> indexOf TEE (node_text c) < 0) \<longrightarrow>
        rendered_ok n (render c p b) (flat_node (Suc k) c))"

section \<open>Notions for the layout\<close>

text \<open>
  Two rectangles are apart when one lies wholly to the left of the other or wholly above
  it: the closed rectangles \<open>[x, x + w] \<times> [y, y + h]\<close> then have no point in common.
  The comparisons are those of the source's numbers, false on \<^verbatim>\<open>NaN\<close>.
\<close>

definition apart :: "positioned_node \<Rightarrow> positioned_node \<Rightarrow> bool" where
  "apart p q \<longleftrightarrow>
     js_lt (js_add (px p) (pw p)) (px q) \<or> js_lt (js_add (px q) (pw q)) (px p) \<or>
     js_lt (js_add (py p) (ph p)) (py q) \<or> js_lt (js_add (py q) (ph q)) (py p)"

text \<open>
  The rest of this section are devices of the proof. A number is finite when it is
  \<open>Fin\<close> of a rational; a rectangle is finite when its four numbers are; the rectangles
  of a list are all apart when they are finite and any two of them are apart.
\<close>

fun the_fin :: "jsnum \<Rightarrow> rat" where
  "the_fin (Fin r) = r"
| "the_fin v = 0"

definition is_fin :: "jsnum \<Rightarrow> bool" where
  "is_fin v \<longleftrightarrow> v = Fin (the_fin v)"

definition fin_rect :: "positioned_node \<Rightarrow> bool" where
  "fin_rect p \<longleftrightarrow> is_fin (px p) \<and> is_fin (py p) \<and> is_fin (pw p) \<and> is_fin (ph p)"

definition all_apart :: "positioned_node list \<Rightarrow> bool" where
  "all_apart ps \<longleftrightarrow>
     (\<forall>p \<in> set ps. fin_rect p) \<and>
     (\<forall>i j. i < j \<and> j < length ps \<longrightarrow> apart (ps ! i) (ps ! j))"

text \<open>
  The two shifts of \<^verbatim>\<open>layoutTreeForSvg\<close>, each as a function of the list it shifts, with
  the bindings of the source.
\<close>

definition shift_to_margin :: "positioned_node list \<Rightarrow> positioned_node list" where
  "shift_to_margin positioned0 =
     (let minX = Math_min (map px positioned0);
          minY = Math_min (map py positioned0);
          dx = (if js_lt minX MARGIN then js_sub MARGIN minX else Fin 0);
          dy = (if js_lt minY MARGIN then js_sub MARGIN minY else Fin 0)
      in if truthy dx \<or> truthy dy then map (shift dx dy) positioned0 else positioned0)"

definition shift_to_centre :: "positioned_node list \<Rightarrow> positioned_node list" where
  "shift_to_centre positioned1 =
     (let contentMinX = Math_min (map px positioned1);
          contentMaxX = Math_max (map (\<lambda>p. js_add (px p) (pw p)) positioned1);
          contentWidth = js_sub contentMaxX contentMinX;
          canvasWidth = js_add (Math_max [contentMaxX, MIN_CANVAS_W]) MARGIN;
          desiredMinX = Math_max [MARGIN, js_div (js_sub canvasWidth contentWidth) (Fin 2)];
          dxCenter = js_sub desiredMinX contentMinX
      in if truthy dxCenter then map (shift_x dxCenter) positioned1 else positioned1)"

text \<open>The tops of the rows over rational heights, as \<open>yTopByDepth_of\<close> computes them.\<close>

fun ytop :: "rat \<Rightarrow> rat list \<Rightarrow> rat list" where
  "ytop acc [] = []"
| "ytop acc (m # ms) = acc # ytop (acc + (m + 50)) ms"

text \<open>The number of nodes, the height and the number of leaves of a tree.\<close>

fun nsize :: "node \<Rightarrow> nat" and fsize :: "node list \<Rightarrow> nat" where
  "nsize (Node t cs) = Suc (fsize cs)"
| "fsize [] = 0"
| "fsize (c # cs) = nsize c + fsize cs"

fun tree_height :: "node \<Rightarrow> nat" and forest_height :: "node list \<Rightarrow> nat" where
  "tree_height (Node t cs) = Suc (forest_height cs)"
| "forest_height [] = 0"
| "forest_height (c # cs) = max (tree_height c) (forest_height cs)"

fun nleaves :: "node \<Rightarrow> nat" and fleaves :: "node list \<Rightarrow> nat" where
  "nleaves (Node t cs) = (if cs = [] then 1 else fleaves cs)"
| "fleaves [] = 0"
| "fleaves (c # cs) = nleaves c + fleaves cs"

text \<open>
  What \<^verbatim>\<open>walk\<close> pushes for a tree whose first id is \<open>nx\<close>: the ids are consecutive in
  pre-order, so the ids of the children of a node are known from the sizes of the
  children. \<open>covered\<close> says that \<^verbatim>\<open>byId\<close> holds every entry of a list under its id.
\<close>

fun child_ids :: "nat \<Rightarrow> node list \<Rightarrow> nat list" where
  "child_ids nx [] = []"
| "child_ids nx (c # cs) = nx # child_ids (nx + nsize c) cs"

fun went :: "node \<Rightarrow> nat \<Rightarrow> nat option \<Rightarrow> nat \<Rightarrow> flatnode list"
  and wents :: "node list \<Rightarrow> nat \<Rightarrow> nat option \<Rightarrow> nat \<Rightarrow> flatnode list" where
  "went (Node t cs) d par nx =
     \<lparr>node_id = nx, flat_text = t, depth = d, parentId = par,
      childrenIds = child_ids (Suc nx) cs\<rparr> # wents cs (Suc d) (Some nx) (Suc nx)"
| "wents [] d par nx = []"
| "wents (c # cs) d par nx = went c d par nx @ wents cs d par (nx + nsize c)"

definition covered :: "(nat \<rightharpoonup> flatnode) \<Rightarrow> flatnode list \<Rightarrow> bool" where
  "covered byId es \<longleftrightarrow> (\<forall>e \<in> set es. byId (node_id e) = Some e)"

text \<open>
  What \<^verbatim>\<open>assignLeaves\<close> adds to \<^verbatim>\<open>leafX\<close> for a tree whose first id is \<open>nx\<close> when the
  cursor is \<open>cur\<close>, and the leaves of the tree with their columns.
\<close>

fun leafmap :: "node \<Rightarrow> nat \<Rightarrow> nat \<Rightarrow> (nat \<rightharpoonup> nat) \<Rightarrow> (nat \<rightharpoonup> nat)"
  and leafmap_f :: "node list \<Rightarrow> nat \<Rightarrow> nat \<Rightarrow> (nat \<rightharpoonup> nat) \<Rightarrow> (nat \<rightharpoonup> nat)" where
  "leafmap (Node t cs) nx cur lx =
     (if cs = [] then lx(nx \<mapsto> cur) else leafmap_f cs (Suc nx) cur lx)"
| "leafmap_f [] nx cur lx = lx"
| "leafmap_f (c # cs) nx cur lx =
     leafmap_f cs (nx + nsize c) (cur + nleaves c) (leafmap c nx cur lx)"

fun lvs :: "node \<Rightarrow> nat \<Rightarrow> nat \<Rightarrow> (nat \<times> nat) list"
  and lvs_f :: "node list \<Rightarrow> nat \<Rightarrow> nat \<Rightarrow> (nat \<times> nat) list" where
  "lvs (Node t cs) nx cur = (if cs = [] then [(nx, cur)] else lvs_f cs (Suc nx) cur)"
| "lvs_f [] nx cur = []"
| "lvs_f (c # cs) nx cur = lvs c nx cur @ lvs_f cs (nx + nsize c) (cur + nleaves c)"

text \<open>
  The column of a node in units: its own column for a leaf, the mean of the columns of
  its children otherwise. \<open>unitmap\<close> is what \<^verbatim>\<open>computeX\<close> adds to \<^verbatim>\<open>xUnit\<close>, and \<open>du\<close>
  lists the depth and the column of every node in pre-order.
\<close>

fun unit_node :: "nat \<Rightarrow> node \<Rightarrow> rat" and units_f :: "nat \<Rightarrow> node list \<Rightarrow> rat list" where
  "unit_node cur (Node t cs) =
     (if cs = [] then of_nat cur else sum_list (units_f cur cs) / of_nat (length cs))"
| "units_f cur [] = []"
| "units_f cur (c # cs) = unit_node cur c # units_f (cur + nleaves c) cs"

fun unitmap :: "node \<Rightarrow> nat \<Rightarrow> nat \<Rightarrow> (nat \<rightharpoonup> jsnum) \<Rightarrow> (nat \<rightharpoonup> jsnum)"
  and unitmap_f :: "node list \<Rightarrow> nat \<Rightarrow> nat \<Rightarrow> (nat \<rightharpoonup> jsnum) \<Rightarrow> (nat \<rightharpoonup> jsnum)" where
  "unitmap (Node t cs) nx cur xu =
     (unitmap_f cs (Suc nx) cur xu)(nx \<mapsto> Fin (unit_node cur (Node t cs)))"
| "unitmap_f [] nx cur xu = xu"
| "unitmap_f (c # cs) nx cur xu =
     unitmap_f cs (nx + nsize c) (cur + nleaves c) (unitmap c nx cur xu)"

fun du :: "nat \<Rightarrow> nat \<Rightarrow> node \<Rightarrow> (nat \<times> rat) list"
  and du_f :: "nat \<Rightarrow> nat \<Rightarrow> node list \<Rightarrow> (nat \<times> rat) list" where
  "du d cur (Node t cs) = (d, unit_node cur (Node t cs)) # du_f (Suc d) cur cs"
| "du_f d cur [] = []"
| "du_f d cur (c # cs) = du d cur c @ du_f d (cur + nleaves c) cs"

section \<open>Evaluation of the text functions\<close>

lemmas string_defs = trim_def trimEnd_def is_ws_def countLeadingSpaces_def

lemmas parse_defs = parseIndentedTree_def parse_lines_of_def parse_line_def Let_def

lemmas render_defs =
  renderAsciiTree_def TEE_def ELBOW_def BAR_def BAR_BLOCK_def BLANK_BLOCK_def Let_def

lemmas fence_defs = strip_open_fence_def strip_close_fence_def is_close_fence_def

lemmas line_defs =
  import_line_def indexOf_def TEE_def ELBOW_def connector_only_def Let_def

lemma importJiraToIndented_unfold:
  "importJiraToIndented raw n =
     join_lines (pop_blank (List.map_filter (import_line n)
       (map trimEnd (split_lines (replace_crlf (strip_close_fence (strip_open_fence raw)))))))"
  by (simp add: importJiraToIndented_def Let_def)

lemma replicate_2: "replicate 2 x = [x, x]"
  by (simp add: numeral_eq_Suc)

lemma replicate_4: "replicate 4 x = [x, x, x, x]"
  by (simp add: numeral_eq_Suc)

section \<open>Scenario 1: the separator between the children of a root\<close>

lemma parse_scenario1:
  "parseIndentedTree [65, 10, 32, 32, 66, 10, 32, 32, 67] 2 =
     [Node [65] [Node [66] [], Node [67] []]]"
  by (simp add: parse_defs string_defs)

lemma render_scenario1:
  "renderAsciiTree [Node [65] [Node [66] [], Node [67] []]] =
     join_lines [[65], BAR, TEE @ [66], ELBOW @ [67]]"
  by (simp add: render_defs)

lemma render_nested_siblings:
  "renderAsciiTree [Node [82] [Node [65] [Node [66] [], Node [67] []]]] =
     join_lines [[82], BAR, ELBOW @ [65], BLANK_BLOCK @ BAR, BLANK_BLOCK @ TEE @ [66],
       BLANK_BLOCK @ BAR, BLANK_BLOCK @ ELBOW @ [67]]"
  by (simp add: render_defs)

text \<open>
  C2. The input \<^verbatim>\<open>"A\n  B\n  C"\<close> (code units 65 10 32 32 66 10 32 32 67) with indent
  size 2 parses to one root A with the children B and C. The claim has renderAsciiTree
  produce the five lines A, bar, tee B, bar, elbow C. The code produces four lines: the
  loop over the children of a root pushes no separator between B and C, while the loop in
  \<^verbatim>\<open>render\<close>, for the children of any deeper node, does (third conjunct: the same two
  siblings one level down, under the root R, are separated by a bar line).
\<close>

theorem C2_render_scenario1_has_no_separator:
  "parseIndentedTree [65, 10, 32, 32, 66, 10, 32, 32, 67] 2 =
     [Node [65] [Node [66] [], Node [67] []]] \<and>
   renderAsciiTree (parseIndentedTree [65, 10, 32, 32, 66, 10, 32, 32, 67] 2) =
     join_lines [[65], BAR, TEE @ [66], ELBOW @ [67]] \<and>
   renderAsciiTree (parseIndentedTree [65, 10, 32, 32, 66, 10, 32, 32, 67] 2) \<noteq>
     join_lines [[65], BAR, TEE @ [66], BAR, ELBOW @ [67]] \<and>
   renderAsciiTree [Node [82] [Node [65] [Node [66] [], Node [67] []]]] =
     join_lines [[82], BAR, ELBOW @ [65], BLANK_BLOCK @ BAR, BLANK_BLOCK @ TEE @ [66],
       BLANK_BLOCK @ BAR, BLANK_BLOCK @ ELBOW @ [67]]"
proof -
  have "join_lines [[65], BAR, TEE @ [66], ELBOW @ [67]] \<noteq>
        join_lines [[65], BAR, TEE @ [66], BAR, ELBOW @ [67]]"
    by (simp add: render_defs)
  then show ?thesis
    by (simp only: parse_scenario1 render_scenario1 render_nested_siblings simp_thms)
qed

section \<open>The marker at which a line is split\<close>

lemma import_line_elbow_then_tee:
  "import_line 2 [9492, 9472, 32, 120, 32, 9500, 9472, 32, 121] = Some [32, 32, 32, 32, 121]"
  by (simp add: line_defs string_defs replicate_4)

lemma import_elbow_then_tee:
  "importJiraToIndented [9492, 9472, 32, 120, 32, 9500, 9472, 32, 121] 2 =
     [32, 32, 32, 32, 121]"
proof -
  have 1: "strip_close_fence (strip_open_fence [9492, 9472, 32, 120, 32, 9500, 9472, 32, 121])
             = [9492, 9472, 32, 120, 32, 9500, 9472, 32, 121]"
    by (simp add: fence_defs string_defs)
  have 2: "map trimEnd (split_lines (replace_crlf [9492, 9472, 32, 120, 32, 9500, 9472, 32, 121]))
             = [[9492, 9472, 32, 120, 32, 9500, 9472, 32, 121]]"
    by (simp add: string_defs)
  show ?thesis
    by (simp add: importJiraToIndented_unfold 1 2 import_line_elbow_then_tee
        List.map_filter_def pop_blank_def string_defs)
qed

lemma parse_last_child_with_tee:
  "parseIndentedTree [65, 10, 32, 32, 120, 32, 9500, 9472, 32, 121] 2 =
     [Node [65] [Node [120, 32, 9500, 9472, 32, 121] []]]"
  by (simp add: parse_defs string_defs)

lemma render_last_child_with_tee:
  "renderAsciiTree [Node [65] [Node [120, 32, 9500, 9472, 32, 121] []]] =
     join_lines [[65], BAR, [9492, 9472, 32, 120, 32, 9500, 9472, 32, 121]]"
  by (simp add: render_defs)

text \<open>
  C3. The line of code units 9492 9472 32 120 32 9500 9472 32 121 reads elbow marker,
  \<^verbatim>\<open>x\<close>, space, tee marker, \<^verbatim>\<open>y\<close>: the elbow marker (U+2514 U+2500 SPACE) starts at
  position 0 and the tee marker (U+251C U+2500 SPACE) at position 5. It is the line the
  renderer writes for a last child whose label holds a tee marker (last conjunct: the
  third line rendered for the tree parsed from A with that child). The earliest marker is
  the elbow, so the claim has the line split at 0: empty prefix, level 1, and the label
  the six code units after the elbow marker. The code takes the position of the tee
  marker whenever the line has one: it splits at 5, the prefix is the first five code
  units, the level is \<open>5 div 3 + 1 = 2\<close> and the label is \<^verbatim>\<open>y\<close>.
\<close>

theorem C3_split_prefers_tee_over_earlier_elbow:
  "indexOf ELBOW [9492, 9472, 32, 120, 32, 9500, 9472, 32, 121] = 0 \<and>
   indexOf TEE [9492, 9472, 32, 120, 32, 9500, 9472, 32, 121] = 5 \<and>
   import_line 2 [9492, 9472, 32, 120, 32, 9500, 9472, 32, 121] =
     Some (replicate (2 * 2) 32 @ [121]) \<and>
   import_line 2 [9492, 9472, 32, 120, 32, 9500, 9472, 32, 121] \<noteq>
     Some (replicate (1 * 2) 32 @ [120, 32, 9500, 9472, 32, 121]) \<and>
   importJiraToIndented [9492, 9472, 32, 120, 32, 9500, 9472, 32, 121] 2 =
     [32, 32, 32, 32, 121] \<and>
   renderAsciiTree (parseIndentedTree [65, 10, 32, 32, 120, 32, 9500, 9472, 32, 121] 2) =
     join_lines [[65], BAR, [9492, 9472, 32, 120, 32, 9500, 9472, 32, 121]]"
  by (simp add: import_line_elbow_then_tee import_elbow_then_tee replicate_4 replicate_2
      indexOf_def TEE_def ELBOW_def parse_last_child_with_tee render_last_child_with_tee)

section \<open>Scenario 3: a fenced import\<close>

lemma import_scenario3:
  "importJiraToIndented
     [123, 99, 111, 100, 101, 58, 106, 97, 118, 97, 125, 10, 65, 10, 9474, 10,
      9492, 9472, 32, 66, 10, 123, 99, 111, 100, 101, 125] 2 = [65, 10, 32, 32, 66]"
proof -
  have 1: "strip_close_fence (strip_open_fence
             [123, 99, 111, 100, 101, 58, 106, 97, 118, 97, 125, 10, 65, 10, 9474, 10,
              9492, 9472, 32, 66, 10, 123, 99, 111, 100, 101, 125])
           = [65, 10, 9474, 10, 9492, 9472, 32, 66]"
    by (simp add: fence_defs string_defs)
  have 2: "map trimEnd (split_lines (replace_crlf [65, 10, 9474, 10, 9492, 9472, 32, 66]))
           = [[65], [9474], [9492, 9472, 32, 66]]"
    by (simp add: string_defs)
  have 3: "import_line 2 [65] = Some [65]" "import_line 2 [9474] = None"
    "import_line 2 [9492, 9472, 32, 66] = Some [32, 32, 66]"
    by (simp_all add: line_defs string_defs replicate_2)
  show ?thesis
    by (simp add: importJiraToIndented_unfold 1 2 3 List.map_filter_def pop_blank_def
        string_defs)
qed

section \<open>The parser and its frames\<close>

lemma children_at_subtree: "children_at p n = children (subtree_at p n)"
  by (induction p n rule: children_at.induct) auto

lemma push_child_map_at: "push_child p new n = map_at p (add_child new) n"
  by (induction p new n rule: push_child.induct) auto

lemma subtree_at_append: "subtree_at (p @ q) n = subtree_at q (subtree_at p n)"
  by (induction p n rule: subtree_at.induct) auto

lemma map_at_append: "map_at (p @ q) g n = map_at p (map_at q g) n"
  by (induction p g n rule: map_at.induct) auto

lemma add_child_children: "children (add_child n p) = children p @ [n]"
  by (cases p) simp

lemma subtree_at_collapse_into:
  "subtree_at (path_above fs) (collapse_into n fs) = n"
proof (induction fs arbitrary: n)
  case Nil
  show ?case by simp
next
  case (Cons f fs)
  obtain l p where f: "f = (l, p)" by (cases f)
  have "subtree_at (path_above fs) (collapse_into (add_child n p) fs) = add_child n p"
    by (rule Cons.IH)
  then show ?case
    by (simp add: f subtree_at_append add_child_children)
qed

lemma map_at_collapse_into:
  "map_at (path_above fs) g (collapse_into n fs) = collapse_into (g n) fs"
proof (induction fs arbitrary: n g)
  case Nil
  show ?case by simp
next
  case (Cons f fs)
  obtain l t cs where f: "f = (l, Node t cs)" by (cases f, case_tac b) auto
  have "map_at (path_above fs) (map_at [length cs] g) (collapse_into (Node t (cs @ [n])) fs)
        = collapse_into (map_at [length cs] g (Node t (cs @ [n]))) fs"
    by (rule Cons.IH)
  then show ?case
    by (simp add: f map_at_append)
qed

lemma stack_of_pop_to:
  "frames_ok fs \<Longrightarrow> 0 \<le> lev \<Longrightarrow>
   stack_of (pop_to lev fs) = dropWhile (\<lambda>(l, p). l \<ge> lev) (stack_of fs)"
  by (induction lev fs rule: pop_to.induct) (auto simp: frames_ok_def)

lemma collapse_pop_to: "collapse (pop_to lev fs) = collapse fs"
  by (induction lev fs rule: pop_to.induct) auto

lemma frames_ok_pop_to: "frames_ok fs \<Longrightarrow> frames_ok (pop_to lev fs)"
  by (induction lev fs rule: pop_to.induct) (auto simp: frames_ok_def)

lemma pop_to_nonempty: "fs \<noteq> [] \<Longrightarrow> pop_to lev fs \<noteq> []"
  by (induction lev fs rule: pop_to.induct) auto

lemma parse_line_abs:
  assumes "frames_ok fs"
  shows "parse_line indentSize (abs_state fs) raw =
         abs_state (push_line fs (line_level indentSize raw, trim raw))"
proof -
  let ?lev = "line_level indentSize raw"
  have lev: "0 \<le> ?lev" by (simp add: line_level_def)
  obtain l n gs where gs: "pop_to ?lev fs = (l, n) # gs"
    using pop_to_nonempty assms unfolding frames_ok_def
    by (metis list.exhaust surj_pair)
  have stk: "dropWhile (\<lambda>(l, p). l \<ge> ?lev) (stack_of fs) = (l, path_above gs) # stack_of gs"
    using stack_of_pop_to[OF assms lev] gs by simp
  have root: "collapse fs = collapse_into n gs"
    using collapse_pop_to[of ?lev fs] gs by simp
  show ?thesis
    unfolding parse_line_def abs_state_def push_line_def
    using stk root gs
    by (cases n) (simp add: Let_def line_level_def children_at_subtree subtree_at_collapse_into
        push_child_map_at map_at_collapse_into)
qed

lemma frames_ok_push_line: "frames_ok fs \<Longrightarrow> frames_ok (push_line fs lt)"
  using frames_ok_pop_to[of fs "fst lt"]
  by (simp add: push_line_def frames_ok_def)

lemma foldl_parse_line_abs:
  "frames_ok fs \<Longrightarrow>
   foldl (parse_line indentSize) (abs_state fs) raws =
   abs_state (foldl push_line fs (map (leveled indentSize) raws))"
proof (induction raws arbitrary: fs)
  case Nil
  show ?case by simp
next
  case (Cons raw raws)
  show ?case
    using Cons.IH[OF frames_ok_push_line[OF Cons.prems]] Cons.prems
    by (simp add: parse_line_abs leveled_def)
qed

lemma parseIndentedTree_frames:
  "parseIndentedTree input indentSize =
   build_forest (map (leveled indentSize) (parse_lines_of indentSize input))"
proof -
  have ok: "frames_ok [(- 1, Node ROOT_TEXT [])]"
    by (simp add: frames_ok_def)
  have init: "\<lparr>root = Node ROOT_TEXT [], stack = [(- 1, [])]\<rparr> = abs_state [(- 1, Node ROOT_TEXT [])]"
    by (simp add: abs_state_def)
  show ?thesis
    unfolding parseIndentedTree_def build_forest_def init foldl_parse_line_abs[OF ok]
    by (simp add: abs_state_def)
qed

lemma forest_labels_append: "forest_labels (xs @ ys) = forest_labels xs @ forest_labels ys"
  by (induction xs) auto

lemma labels_of_add_child: "labels_of (add_child n p) = labels_of p @ labels_of n"
  by (cases p) (simp add: forest_labels_append)

lemma labels_of_collapse_into:
  "labels_of (collapse_into n fs) = concat (map (\<lambda>f. labels_of (snd f)) (rev fs)) @ labels_of n"
  by (induction fs arbitrary: n) (auto simp: labels_of_add_child)

lemma labels_of_collapse:
  "fs \<noteq> [] \<Longrightarrow> labels_of (collapse fs) = concat (map (\<lambda>f. labels_of (snd f)) (rev fs))"
  by (cases fs) (auto simp: labels_of_collapse_into)

lemma labels_of_push_line:
  assumes "fs \<noteq> []"
  shows "labels_of (collapse (push_line fs lt)) = labels_of (collapse fs) @ [snd lt]"
proof -
  have "labels_of (collapse (push_line fs lt)) =
        labels_of (collapse (pop_to (fst lt) fs)) @ [snd lt]"
    using pop_to_nonempty[OF assms, of "fst lt"]
    by (simp add: push_line_def labels_of_collapse_into labels_of_collapse)
  then show ?thesis by (simp add: collapse_pop_to)
qed

lemma push_line_nonempty: "push_line fs lt \<noteq> []"
  by (simp add: push_line_def)

lemma labels_of_foldl_push_line:
  "fs \<noteq> [] \<Longrightarrow>
   labels_of (collapse (foldl push_line fs ls)) = labels_of (collapse fs) @ map snd ls"
proof (induction ls arbitrary: fs)
  case Nil
  show ?case by simp
next
  case (Cons l ls)
  show ?case
    using Cons.IH[OF push_line_nonempty, of fs l] Cons.prems
    by (simp add: labels_of_push_line)
qed

lemma forest_labels_children: "forest_labels (children n) = tl (labels_of n)"
  by (cases n) simp

lemma forest_labels_build_forest: "forest_labels (build_forest ls) = map snd ls"
  by (simp add: build_forest_def forest_labels_children labels_of_foldl_push_line)

lemma forest_labels_parse:
  "forest_labels (parseIndentedTree input indentSize) =
   map trim (parse_lines_of indentSize input)"
  by (simp add: parseIndentedTree_frames forest_labels_build_forest leveled_def comp_def)

section \<open>Trimming, splitting and joining\<close>

lemma trimEnd_Nil [simp]: "trimEnd [] = []"
  by (simp add: trimEnd_def)

lemma trimEnd_eq_Nil: "trimEnd s = [] \<longleftrightarrow> (\<forall>c \<in> set s. is_ws c)"
  by (simp add: trimEnd_def)

lemma trimEnd_Cons:
  "trimEnd (c # s) = (if trimEnd s = [] \<and> is_ws c then [] else c # trimEnd s)"
  by (auto simp: trimEnd_def dropWhile_append)

lemma trimEnd_id: "s = [] \<or> \<not> is_ws (last s) \<Longrightarrow> trimEnd s = s"
  by (cases s rule: rev_cases) (auto simp: trimEnd_def)

lemma set_trimEnd: "set (trimEnd s) \<subseteq> set s"
  by (induction s) (auto simp: trimEnd_Cons)

lemma last_trimEnd: "trimEnd s \<noteq> [] \<Longrightarrow> \<not> is_ws (last (trimEnd s))"
  unfolding trimEnd_def using hd_dropWhile[of is_ws "rev s"]
  by (simp add: last_rev)

lemma hd_trimEnd: "s \<noteq> [] \<Longrightarrow> \<not> is_ws (hd s) \<Longrightarrow> trimEnd s \<noteq> [] \<and> hd (trimEnd s) = hd s"
  by (cases s) (auto simp: trimEnd_Cons)

lemma dropWhile_ws_id: "s = [] \<or> \<not> is_ws (hd s) \<Longrightarrow> dropWhile is_ws s = s"
  by (cases s) auto

lemma trim_id: "s = [] \<or> (\<not> is_ws (hd s) \<and> \<not> is_ws (last s)) \<Longrightarrow> trim s = s"
  by (auto simp: trim_def dropWhile_ws_id trimEnd_id)

lemma set_trim: "set (trim s) \<subseteq> set s"
proof
  fix c assume "c \<in> set (trim s)"
  then have "c \<in> set (dropWhile is_ws s)"
    using set_trimEnd[of "dropWhile is_ws s"] by (auto simp: trim_def)
  then show "c \<in> set s" by (rule set_dropWhileD)
qed

lemma trim_ends:
  assumes "trim s \<noteq> []"
  shows "\<not> is_ws (hd (trim s)) \<and> \<not> is_ws (last (trim s))"
proof -
  let ?u = "dropWhile is_ws s"
  have u: "?u \<noteq> []" using assms unfolding trim_def by (metis trimEnd_Nil)
  then have "\<not> is_ws (hd ?u)" by (simp add: hd_dropWhile)
  with u have "hd (trimEnd ?u) = hd ?u" by (simp add: hd_trimEnd)
  with \<open>\<not> is_ws (hd ?u)\<close> last_trimEnd[of ?u] assms show ?thesis
    by (simp add: trim_def)
qed

lemma trim_keeps:
  assumes "c \<in> set s" "\<not> is_ws c"
  shows "c \<in> set (trim s)"
proof -
  have mem_trimEnd: "c \<in> set (trimEnd u)" if "c \<in> set u" for u
    using that assms(2) by (induction u) (auto simp: trimEnd_Cons trimEnd_eq_Nil)
  have "c \<in> set (takeWhile is_ws s @ dropWhile is_ws s)" using assms(1) by simp
  moreover have "c \<notin> set (takeWhile is_ws s)"
    using assms(2) set_takeWhileD[of c is_ws s] by blast
  ultimately have "c \<in> set (dropWhile is_ws s)"
    unfolding set_append by blast
  then show ?thesis by (simp add: trim_def mem_trimEnd)
qed

lemma trim_trimEnd: "trim (trimEnd s) = trim s"
proof -
  have 1: "trimEnd (trimEnd u) = trimEnd u" for u
    by (cases "trimEnd u = []") (auto intro: trimEnd_id dest: last_trimEnd)
  have 0: "\<forall>c \<in> set u. is_ws c \<Longrightarrow> dropWhile is_ws u = []" for u
    by (induction u) auto
  have 2: "dropWhile is_ws (trimEnd u) = trimEnd (dropWhile is_ws u)" for u
    by (induction u) (auto simp: trimEnd_Cons trimEnd_eq_Nil 0 dest: set_dropWhileD)
  show ?thesis by (simp add: trim_def 2 1)
qed

lemma split_lines_nonempty [simp]: "split_lines s \<noteq> []"
  by (induction s) (auto split: list.splits)

lemma split_lines_no_lf: "l \<in> set (split_lines s) \<Longrightarrow> 10 \<notin> set l"
  by (induction s arbitrary: l) (auto split: list.splits if_splits)

lemma split_lines_subset: "l \<in> set (split_lines s) \<Longrightarrow> c \<in> set l \<Longrightarrow> c \<in> set s"
  by (induction s arbitrary: l) (fastforce split: list.splits if_splits)+

lemma split_lines_single: "10 \<notin> set s \<Longrightarrow> split_lines s = [s]"
  by (induction s) auto

lemma split_lines_append_lf:
  "10 \<notin> set l \<Longrightarrow> split_lines (l @ 10 # s) = l # split_lines s"
  by (induction l) auto

lemma split_join_lines:
  "ls \<noteq> [] \<Longrightarrow> \<forall>l \<in> set ls. 10 \<notin> set l \<Longrightarrow> split_lines (join_lines ls) = ls"
  by (induction ls rule: join_lines.induct) (auto simp: split_lines_single split_lines_append_lf)

lemma expand_tabs_no_tab:
  "9 \<notin> set (concat (map (\<lambda>c. if c = 9 then replicate n 32 else [c]) (s::jsstring)))"
  by (induction s) auto

lemma expand_tabs_id:
  "9 \<notin> set s \<Longrightarrow> concat (map (\<lambda>c. if c = 9 then replicate n 32 else [c]) s) = (s::jsstring)"
  by (induction s) auto

section \<open>The labels of parsed nodes (C10)\<close>

lemma parse_lines_of_clean:
  assumes "l \<in> set (parse_lines_of n input)"
  shows "clean_label (trim l)"
proof -
  let ?s = "concat (map (\<lambda>c. if c = 9 then replicate n 32 else [c]) input)"
  from assms obtain r where r: "r \<in> set (split_lines ?s)" "l = trimEnd r" "trim l \<noteq> []"
    by (auto simp: parse_lines_of_def)
  have "set (trim l) \<subseteq> set r"
    using set_trim[of l] set_trimEnd[of r] r(2) by auto
  moreover have "10 \<notin> set r" using r(1) by (rule split_lines_no_lf)
  moreover have "9 \<notin> set r" using split_lines_subset[OF r(1), of 9] expand_tabs_no_tab[of n input] by auto
  ultimately show ?thesis
    using r(3) trim_ends[OF r(3)] by (auto simp: clean_label_def)
qed

lemma parse_labels_clean:
  "t \<in> set (forest_labels (parseIndentedTree input n)) \<Longrightarrow> clean_label t"
  by (auto simp: forest_labels_parse parse_lines_of_clean)

text \<open>
  C10. For every input and every positive indent size, every node of the forest that
  parseIndentedTree returns, descendants included (\<open>forest_labels\<close> lists the labels of
  all nodes in pre-order), has a label that is not empty and not white space only.
\<close>

theorem C10_labels_non_empty:
  assumes "0 < indentSize"
    and "t \<in> set (forest_labels (parseIndentedTree input indentSize))"
  shows "t \<noteq> [] \<and> \<not> list_all is_ws t"
proof -
  have "clean_label t" using assms(2) by (rule parse_labels_clean)
  then have "t \<noteq> []" "\<not> is_ws (hd t)" by (simp_all add: clean_label_def)
  then show ?thesis by (cases t) auto
qed


theorem C10_witness:
  "(0::nat) < 2 \<and> [66] \<in> set (forest_labels (parseIndentedTree [65, 10, 32, 32, 32, 32, 66] 2)) \<and>
   [66] \<noteq> [] \<and> \<not> list_all is_ws [66]"
proof -
  have p: "parseIndentedTree [65, 10, 32, 32, 32, 32, 66] 2 = [Node [65] [Node [66] []]]"
    by (simp add: parse_defs string_defs)
  have m: "[66] \<in> set (forest_labels (parseIndentedTree [65, 10, 32, 32, 32, 32, 66] 2))"
    by (simp add: p)
  show ?thesis
    using C10_labels_non_empty[OF _ m] m by simp
qed

section \<open>Indented lines\<close>

lemma is_ws_32 [simp]: "is_ws 32"
  by (simp add: is_ws_def)

lemma trim_indented:
  "clean_label t \<Longrightarrow> trim (replicate k 32 @ t) = t"
proof -
  assume t: "clean_label t"
  have "dropWhile is_ws (replicate k 32 @ t) = dropWhile is_ws t"
    by (rule dropWhile_append2) simp
  also have "\<dots> = t" using t by (simp add: dropWhile_ws_id clean_label_def)
  finally show ?thesis using t by (simp add: trim_def trimEnd_id clean_label_def)
qed

lemma countLeadingSpaces_indented:
  "clean_label t \<Longrightarrow> countLeadingSpaces (replicate k 32 @ t) = k"
proof -
  assume t: "clean_label t"
  then have "takeWhile (\<lambda>c. c = 32) t = []"
    by (cases t) (auto simp: clean_label_def)
  moreover have "takeWhile (\<lambda>c. c = 32) (replicate k 32 @ t) = replicate k 32 @ takeWhile (\<lambda>c. c = 32) t"
    by (rule takeWhile_append2) simp
  ultimately show ?thesis by (simp add: countLeadingSpaces_def)
qed

lemma trimEnd_indented: "clean_label t \<Longrightarrow> trimEnd (replicate k 32 @ t) = replicate k 32 @ t"
  by (rule trimEnd_id) (simp add: clean_label_def)

lemma leveled_indented:
  "0 < n \<Longrightarrow> clean_label t \<Longrightarrow> leveled n (replicate (d * n) 32 @ t) = (int d, t)"
  by (simp add: leveled_def line_level_def countLeadingSpaces_indented trim_indented)

lemma clean_label_A: "clean_label [65]"
  by (simp add: clean_label_def is_ws_def)

lemma clean_label_B: "clean_label [66]"
  by (simp add: clean_label_def is_ws_def)

lemma parse_lines_of_two:
  assumes "clean_label a" and "clean_label b"
  shows "parse_lines_of n (replicate j 32 @ a @ [10] @ replicate k 32 @ b) =
         [replicate j 32 @ a, replicate k 32 @ b]"
proof -
  let ?l1 = "replicate j 32 @ a" and ?l2 = "replicate k 32 @ b"
  have no: "9 \<notin> set ?l1" "9 \<notin> set ?l2" "10 \<notin> set ?l1" "10 \<notin> set ?l2"
    using assms by (auto simp: clean_label_def)
  have 1: "concat (map (\<lambda>c. if c = 9 then replicate n 32 else [c]) (?l1 @ 10 # ?l2)) = ?l1 @ 10 # ?l2"
    using no by (intro expand_tabs_id) auto
  have 2: "split_lines (?l1 @ 10 # ?l2) = [?l1, ?l2]"
    using no by (simp add: split_lines_append_lf split_lines_single del: append_assoc)
  have 3: "map trimEnd [?l1, ?l2] = [?l1, ?l2]"
    using trimEnd_indented[OF assms(1), of j] trimEnd_indented[OF assms(2), of k] by simp
  have 4: "filter (\<lambda>l. length (trim l) > 0) [?l1, ?l2] = [?l1, ?l2]"
    using trim_indented[OF assms(1), of j] trim_indented[OF assms(2), of k] assms
    by (simp add: clean_label_def)
  have "parse_lines_of n (?l1 @ 10 # ?l2) = [?l1, ?l2]"
    unfolding parse_lines_of_def 1 2 3 4 ..
  then show ?thesis by simp
qed

section \<open>The fenced import for every tag (C8)\<close>

lemma strip_open_fence_tagged:
  assumes "125 \<notin> set tag" and "rest = [] \<or> \<not> is_ws (hd rest)"
  shows "strip_open_fence ([123, 99, 111, 100, 101, 58] @ tag @ [125, 10] @ rest) = rest"
proof -
  have 1: "dropWhile (\<lambda>y. y \<noteq> 125) (tag @ 125 # 10 # rest) = 125 # 10 # rest"
    using assms(1) by (induction tag) auto
  have 2: "dropWhile is_ws (10 # rest) = rest"
    using assms(2) by (simp add: is_ws_def dropWhile_ws_id)
  show ?thesis
    using 1 2 by (simp add: strip_open_fence_def is_ws_def)
qed

text \<open>
  C8. Scenario 3, for every language tag. The text is \<^verbatim>\<open>{code:\<close> followed by a tag that
  holds no closing brace, then \<^verbatim>\<open>}\<close>, a line feed, the three lines A, bar, elbow marker
  and B, a line feed and \<^verbatim>\<open>{code}\<close>. With indent size 2 the importer returns
  \<^verbatim>\<open>"A\n  B"\<close> (65 10 32 32 66): both fences are stripped, the bar line is dropped, A
  stays at level 0 and B, found after an empty prefix, is at level
  \<open>max 0 (0 div 3 + 1) = 1\<close>, two spaces deep. The witness takes the tag \<^verbatim>\<open>java\<close>.
\<close>

theorem C8_import_fenced:
  assumes "125 \<notin> set tag"
  shows "importJiraToIndented
           ([123, 99, 111, 100, 101, 58] @ tag @ [125, 10] @
            [65, 10, 9474, 10, 9492, 9472, 32, 66, 10, 123, 99, 111, 100, 101, 125]) 2
         = [65, 10, 32, 32, 66]"
proof -
  have 0: "strip_open_fence
             ([123, 99, 111, 100, 101, 58] @ tag @ [125, 10] @
              [65, 10, 9474, 10, 9492, 9472, 32, 66, 10, 123, 99, 111, 100, 101, 125])
           = [65, 10, 9474, 10, 9492, 9472, 32, 66, 10, 123, 99, 111, 100, 101, 125]"
    by (rule strip_open_fence_tagged[OF assms]) (simp add: is_ws_def)
  have 1: "strip_close_fence
             [65, 10, 9474, 10, 9492, 9472, 32, 66, 10, 123, 99, 111, 100, 101, 125]
           = [65, 10, 9474, 10, 9492, 9472, 32, 66]"
    by (simp add: fence_defs string_defs)
  have 2: "map trimEnd (split_lines (replace_crlf [65, 10, 9474, 10, 9492, 9472, 32, 66]))
           = [[65], [9474], [9492, 9472, 32, 66]]"
    by (simp add: string_defs)
  have 3: "import_line 2 [65] = Some [65]" "import_line 2 [9474] = None"
    "import_line 2 [9492, 9472, 32, 66] = Some [32, 32, 66]"
    by (simp_all add: line_defs string_defs replicate_2)
  show ?thesis
    unfolding importJiraToIndented_unfold 0 1 2
    by (simp add: 3 List.map_filter_def pop_blank_def string_defs)
qed

theorem C8_witness:
  "125 \<notin> set [106, 97, 118, 97 :: nat] \<and>
   importJiraToIndented
     [123, 99, 111, 100, 101, 58, 106, 97, 118, 97, 125, 10, 65, 10, 9474, 10,
      9492, 9472, 32, 66, 10, 123, 99, 111, 100, 101, 125] 2 = [65, 10, 32, 32, 66]"
  using C8_import_fenced[of "[106, 97, 118, 97]"] by simp

section \<open>Parsing the lines of a forest gives the forest\<close>

lemma pop_to_pop_to: "a \<le> b \<Longrightarrow> pop_to a (pop_to b fs) = pop_to a fs"
  by (induction b fs rule: pop_to.induct) auto

lemma push_line_pop_to: "fst lt \<le> b \<Longrightarrow> push_line (pop_to b fs) lt = push_line fs lt"
  by (simp add: push_line_def pop_to_pop_to)

lemma pop_to_foldl_pop_to:
  assumes "ls = [] \<Longrightarrow> a \<le> b" and "ls \<noteq> [] \<Longrightarrow> fst (hd ls) \<le> b"
  shows "pop_to a (foldl push_line (pop_to b fs) ls) = pop_to a (foldl push_line fs ls)"
proof (cases ls)
  case Nil
  then show ?thesis using assms(1) by (simp add: pop_to_pop_to)
next
  case (Cons l ls')
  then show ?thesis using assms(2) by (simp add: push_line_pop_to)
qed

lemma pop_to_top_below: "l < d \<Longrightarrow> pop_to d ((l, n) # fs) = (l, n) # fs"
  by (cases fs) auto

lemma flat_forest_head: "flat_forest d cs = [] \<or> fst (hd (flat_forest d cs)) = int d"
  by (cases cs; cases "hd cs") auto

lemma forest_closes:
  assumes "\<And>c. c \<in> set cs \<Longrightarrow> node_closes c" and "l < int d"
  shows "pop_to (int d) (foldl push_line ((l, p) # gs) (flat_forest d cs)) =
         (l, Node (node_text p) (children p @ cs)) # gs"
  using assms
proof (induction cs arbitrary: p)
  case Nil
  then show ?case by (simp add: pop_to_top_below)
next
  case (Cons c cs)
  have c: "pop_to (int d) (foldl push_line ((l, p) # gs) (flat_node d c)) = (l, add_child c p) # gs"
    using Cons.prems by (simp add: node_closes_def)
  have "pop_to (int d) (foldl push_line ((l, p) # gs) (flat_forest d (c # cs))) =
        pop_to (int d) (foldl push_line (foldl push_line ((l, p) # gs) (flat_node d c)) (flat_forest d cs))"
    by simp
  also have "\<dots> = pop_to (int d) (foldl push_line
        (pop_to (int d) (foldl push_line ((l, p) # gs) (flat_node d c))) (flat_forest d cs))"
    using flat_forest_head[of d cs] by (intro pop_to_foldl_pop_to[symmetric]) auto
  also have "\<dots> = (l, Node (node_text (add_child c p)) (children (add_child c p) @ cs)) # gs"
    unfolding c using Cons.prems by (intro Cons.IH) auto
  finally show ?case by (cases p) simp
qed

lemma node_closes_all: "node_closes c"
proof (induction c)
  case (Node t cs)
  show ?case unfolding node_closes_def
  proof (intro allI impI)
    fix d l p gs assume l: "l < int d"
    let ?H = "(int d, Node t []) # (l, p) # gs"
    let ?F = "flat_forest (Suc d) cs"
    have 1: "foldl push_line ((l, p) # gs) (flat_node d (Node t cs)) = foldl push_line ?H ?F"
      using l by (simp add: push_line_def pop_to_top_below)
    have 2: "pop_to (int (Suc d)) (foldl push_line ?H ?F) = (int d, Node t cs) # (l, p) # gs"
      using forest_closes[where cs = cs and l = "int d" and d = "Suc d" and p = "Node t []"
          and gs = "(l, p) # gs"] Node.IH by simp
    have "pop_to (int d) (foldl push_line ?H ?F) =
          pop_to (int d) (pop_to (int (Suc d)) (foldl push_line ?H ?F))"
      by (simp add: pop_to_pop_to)
    also have "\<dots> = (l, add_child (Node t cs) p) # gs"
      unfolding 2 using l by (simp add: pop_to_top_below)
    finally show "pop_to (int d) (foldl push_line ((l, p) # gs) (flat_node d (Node t cs))) =
                  (l, add_child (Node t cs) p) # gs"
      unfolding 1 .
  qed
qed

lemma build_forest_flat_forest: "build_forest (flat_forest 0 ts) = ts"
proof -
  let ?X = "foldl push_line [(- 1, Node ROOT_TEXT [])] (flat_forest 0 ts)"
  have "pop_to (int 0) ?X = [(- 1, Node ROOT_TEXT ts)]"
    using forest_closes[where cs = ts and l = "- 1" and d = 0 and p = "Node ROOT_TEXT []" and gs = "[]"]
    by (simp add: node_closes_all)
  then have "collapse ?X = Node ROOT_TEXT ts"
    using collapse_pop_to[of "int 0" ?X] by simp
  then show ?thesis by (simp add: build_forest_def)
qed

section \<open>The parent of every line (C7)\<close>

lemma nest_closes:
  assumes "\<forall>x \<in> set ls. l0 < fst x"
  shows "pop_to (l0 + 1) (foldl push_line ((l0, p) # gs) ls) =
         (l0, Node (node_text p) (children p @ nest ls)) # gs"
  using assms
proof (induction ls arbitrary: l0 p gs rule: nest.induct)
  case 1
  show ?case by (simp add: pop_to_top_below)
next
  case (2 l t ls)
  let ?A = "takeWhile (\<lambda>x. l < fst x) ls" and ?B = "dropWhile (\<lambda>x. l < fst x) ls"
  let ?H = "(l, Node t []) # (l0, p) # gs"
  have l: "l0 < l" using "2.prems" by simp
  have ls: "ls = ?A @ ?B" by simp
  have A: "\<forall>x \<in> set ?A. l < fst x" by (auto dest: set_takeWhileD)
  have B: "\<forall>x \<in> set ?B. l0 < fst x" using "2.prems" by (auto dest: set_dropWhileD)
  have hdB: "?B \<noteq> [] \<Longrightarrow> fst (hd ?B) \<le> l"
    using hd_dropWhile[of "\<lambda>x. l < fst x" ls] by auto
  have 1: "foldl push_line ((l0, p) # gs) ((l, t) # ls) =
           foldl push_line (foldl push_line ?H ?A) ?B"
    using l by (subst ls) (simp add: push_line_def pop_to_top_below del: takeWhile_dropWhile_id)
  have 2: "pop_to (l + 1) (foldl push_line ?H ?A) = (l, Node t (nest ?A)) # (l0, p) # gs"
    using "2.IH"(1)[OF A, of "Node t []" "(l0, p) # gs"] by simp
  have "pop_to (l0 + 1) (foldl push_line (foldl push_line ?H ?A) ?B) =
        pop_to (l0 + 1) (foldl push_line (pop_to (l + 1) (foldl push_line ?H ?A)) ?B)"
    using hdB l by (intro pop_to_foldl_pop_to[symmetric]) auto
  also have "\<dots> = pop_to (l0 + 1) (foldl push_line
                   (pop_to l ((l, Node t (nest ?A)) # (l0, p) # gs)) ?B)"
    unfolding 2 using hdB l by (intro pop_to_foldl_pop_to[symmetric]) auto
  also have "pop_to l ((l, Node t (nest ?A)) # (l0, p) # gs) =
             (l0, add_child (Node t (nest ?A)) p) # gs"
    using l by (simp add: pop_to_top_below)
  also have "pop_to (l0 + 1) (foldl push_line ((l0, add_child (Node t (nest ?A)) p) # gs) ?B) =
             (l0, Node (node_text (add_child (Node t (nest ?A)) p))
                (children (add_child (Node t (nest ?A)) p) @ nest ?B)) # gs"
    by (rule "2.IH"(2)[OF B])
  finally show ?case unfolding 1 by (cases p) simp
qed

lemma build_forest_nest:
  assumes "\<forall>x \<in> set ls. 0 \<le> fst x"
  shows "build_forest ls = nest ls"
proof -
  let ?X = "foldl push_line [(- 1, Node ROOT_TEXT [])] ls"
  have "pop_to (- 1 + 1) ?X = [(- 1, Node (node_text (Node ROOT_TEXT [])) (children (Node ROOT_TEXT []) @ nest ls))]"
    by (rule nest_closes) (use assms in auto)
  then have "collapse (pop_to 0 ?X) = Node ROOT_TEXT (nest ls)" by simp
  then show ?thesis by (simp add: build_forest_def collapse_pop_to)
qed

lemma forest_labels_nest: "forest_labels (nest ls) = map snd ls"
proof (induction ls rule: nest.induct)
  case 1
  show ?case by simp
next
  case (2 l t ls)
  have "map snd ls = map snd (takeWhile (\<lambda>x. l < fst x) ls @ dropWhile (\<lambda>x. l < fst x) ls)"
    by simp
  then show ?case using 2 by (simp del: takeWhile_dropWhile_id)
qed

lemma near_skip: "\<forall>x \<in> set xs. \<not> x < v \<Longrightarrow> near v (xs @ r) = near v r"
  by (induction xs) auto

lemma spec_parents_append:
  "spec_parents rpre (xs @ ys) = spec_parents rpre xs @ spec_parents (rev xs @ rpre) ys"
  by (induction xs arbitrary: rpre) auto

lemma parents_nest:
  assumes "\<forall>x \<in> set ls. lo < fst x" and "ls \<noteq> [] \<Longrightarrow> fst (hd ls) \<le> hi"
    and "\<forall>v. lo < v \<and> v \<le> hi \<longrightarrow> near v rpre = par"
  shows "parents_forest par (length rpre) (nest ls) = spec_parents rpre (map fst ls)"
  using assms
proof (induction ls arbitrary: lo hi rpre par rule: nest.induct)
  case 1
  show ?case by simp
next
  case (2 l t ls)
  let ?A = "takeWhile (\<lambda>x. l < fst x) ls" and ?B = "dropWhile (\<lambda>x. l < fst x) ls"
  have l: "lo < l" "l \<le> hi" using "2.prems"(1,2) by simp_all
  have ls: "map fst ls = map fst ?A @ map fst ?B"
    by (simp flip: map_append)
  have A: "\<forall>x \<in> set ?A. l < fst x" by (auto dest: set_takeWhileD)
  have B: "\<forall>x \<in> set ?B. lo < fst x" using "2.prems"(1) by (auto dest: set_dropWhileD)
  have hdB: "?B \<noteq> [] \<Longrightarrow> fst (hd ?B) \<le> l"
    using hd_dropWhile[of "\<lambda>x. l < fst x" ls] by auto
  have iA: "\<forall>v. l < v \<and> v \<le> v' \<longrightarrow> near v (l # rpre) = Some (length rpre)" for v'
    by simp
  have a: "parents_forest (Some (length rpre)) (length (l # rpre)) (nest ?A) =
           spec_parents (l # rpre) (map fst ?A)"
    by (rule "2.IH"(1)[OF A _ iA[of "fst (hd ?A)"]]) simp
  have iB: "\<forall>v. lo < v \<and> v \<le> l \<longrightarrow> near v (rev (map fst ?A) @ l # rpre) = par"
  proof (intro allI impI)
    fix v assume v: "lo < v \<and> v \<le> l"
    have "near v (rev (map fst ?A) @ l # rpre) = near v (l # rpre)"
      using A v by (intro near_skip) auto
    then show "near v (rev (map fst ?A) @ l # rpre) = par"
      using v l "2.prems"(3) by simp
  qed
  have b: "parents_forest par (length (rev (map fst ?A) @ l # rpre)) (nest ?B) =
           spec_parents (rev (map fst ?A) @ l # rpre) (map fst ?B)"
    by (rule "2.IH"(2)[OF B hdB iB])
  have first: "near l rpre = par" using l "2.prems"(3) by simp
  show ?case
    using a b first
    by (simp add: ls spec_parents_append forest_labels_nest ac_simps del: takeWhile_dropWhile_id)
qed

lemma line_parent_near:
  "i \<le> length L \<Longrightarrow>
   (case filter (\<lambda>j. L ! j < v) (rev [0..<i]) of [] \<Rightarrow> None | j # _ \<Rightarrow> Some j) =
   near v (rev (take i L))"
proof (induction i)
  case 0
  show ?case by simp
next
  case (Suc i)
  then show ?case by (simp add: take_Suc_conv_app_nth)
qed

lemma spec_parents_line_parent:
  "spec_parents (rev pre) vs =
   map (line_parent (pre @ vs)) [length pre ..< length pre + length vs]"
proof (induction vs arbitrary: pre)
  case Nil
  show ?case by simp
next
  case (Cons v vs)
  have "line_parent (pre @ v # vs) (length pre) = near v (rev pre)"
    using line_parent_near[of "length pre" "pre @ v # vs" v]
    by (simp add: line_parent_def)
  moreover have "spec_parents (rev (pre @ [v])) vs =
     map (line_parent ((pre @ [v]) @ vs)) [length (pre @ [v]) ..< length (pre @ [v]) + length vs]"
    by (rule Cons.IH)
  moreover have "[length pre ..< length pre + length (v # vs)] =
     length pre # [length (pre @ [v]) ..< length (pre @ [v]) + length vs]"
    using upt_conv_Cons[of "length pre" "length pre + Suc (length vs)"] by simp
  ultimately show ?case by simp
qed

lemma parents_build_forest:
  assumes "\<forall>x \<in> set ls. 0 \<le> fst x"
  shows "parents_forest None 0 (build_forest ls) =
         map (line_parent (map fst ls)) [0..<length ls]"
proof -
  have "parents_forest None (length ([] :: int list)) (nest ls) = spec_parents [] (map fst ls)"
  proof (cases ls)
    case Nil
    then show ?thesis by simp
  next
    case (Cons x xs)
    show ?thesis
      by (rule parents_nest[where lo = "- 1" and hi = "fst (hd ls)"]) (use assms in auto)
  qed
  then show ?thesis
    using spec_parents_line_parent[of "[]" "map fst ls"] build_forest_nest[OF assms] by simp
qed

lemma parents_parse:
  "parents_forest None 0 (parseIndentedTree input indentSize) =
   map (line_parent (map (line_level indentSize) (parse_lines_of indentSize input)))
     [0..<length (parse_lines_of indentSize input)]"
proof -
  have "\<forall>x \<in> set (map (leveled indentSize) (parse_lines_of indentSize input)). 0 \<le> fst x"
    by (simp add: leveled_def line_level_def)
  from parents_build_forest[OF this] show ?thesis
    by (simp add: parseIndentedTree_frames leveled_def comp_def)
qed

text \<open>
  C7. For every input and every positive indent size, the parent of the node of a line is
  the node of the nearest earlier line whose level is smaller, however much deeper the
  line is indented, and a line with no such earlier line is a root: the list of the
  parents of the parsed forest is \<open>line_parent\<close> of the levels of the lines. No node is
  made up: the labels of the nodes, in pre-order, are the trimmed non-blank lines, one
  node per line. The two together fix the forest. In particular, for two lines, \<open>j\<close>
  spaces and a label \<open>a\<close>, then \<open>k\<close> spaces and a label \<open>b\<close>, the labels being any texts a
  parsed label can be, whenever the level of the second line is above the level of the
  first, by one or by more, the result is the single root \<open>a\<close> with the single child
  \<open>b\<close>, a leaf at depth 1. With no space before A, four spaces before B and indent size
  2 this is scenario 2. On the three lines A, six spaces and B, four spaces and C, with
  indent size 2, the levels are 0, 3 and 2, and B and C are both children of A.
\<close>

theorem C7_deeper_line_is_direct_child:
  assumes "0 < indentSize"
  shows "parents_forest None 0 (parseIndentedTree input indentSize) =
           map (line_parent (map (line_level indentSize) (parse_lines_of indentSize input)))
             [0..<length (parse_lines_of indentSize input)] \<and>
         forest_labels (parseIndentedTree input indentSize) =
           map trim (parse_lines_of indentSize input) \<and>
         (j div indentSize < k div indentSize \<and> clean_label a \<and> clean_label b \<longrightarrow>
          parseIndentedTree (replicate j 32 @ a @ [10] @ replicate k 32 @ b) indentSize =
            [Node a [Node b []]])"
proof -
  have two: "parseIndentedTree (replicate j 32 @ a @ [10] @ replicate k 32 @ b) indentSize =
             [Node a [Node b []]]"
    if jk: "j div indentSize < k div indentSize" and a: "clean_label a" and b: "clean_label b"
  proof -
    have A: "leveled indentSize (replicate j 32 @ a) = (int (j div indentSize), a)"
      by (simp add: leveled_def line_level_def countLeadingSpaces_indented[OF a]
          trim_indented[OF a])
    have B: "leveled indentSize (replicate k 32 @ b) = (int (k div indentSize), b)"
      by (simp add: leveled_def line_level_def countLeadingSpaces_indented[OF b]
          trim_indented[OF b])
    have "build_forest [(int (j div indentSize), a), (int (k div indentSize), b)] =
          [Node a [Node b []]]"
      using jk by (simp add: build_forest_def push_line_def)
    then show ?thesis
      by (simp only: parseIndentedTree_frames parse_lines_of_two[OF a b] list.map A B)
  qed
  show ?thesis
    using forest_labels_parse[of input indentSize] parents_parse[of input indentSize] two
    by simp
qed

lemma lines_A_BBB_CC:
  "parse_lines_of 2 [65, 10, 32, 32, 32, 32, 32, 32, 66, 10, 32, 32, 32, 32, 67] =
     [[65], [32, 32, 32, 32, 32, 32, 66], [32, 32, 32, 32, 67]]"
  by (simp add: parse_lines_of_def string_defs)

lemma parse_A_BBB_CC:
  "parseIndentedTree [65, 10, 32, 32, 32, 32, 32, 32, 66, 10, 32, 32, 32, 32, 67] 2 =
     [Node [65] [Node [66] [], Node [67] []]]"
  by (simp add: parse_defs string_defs)

lemma levels_A_BBB_CC:
  "map (line_level 2) [[65], [32, 32, 32, 32, 32, 32, 66], [32, 32, 32, 32, 67]] = [0, 3, 2]"
  by (simp add: line_level_def countLeadingSpaces_def)

lemma line_parents_0_3_2: "map (line_parent [0, 3, 2]) [0..<3] = [None, Some 0, Some 0]"
  by (simp add: line_parent_def upt_conv_Cons)

theorem C7_witness:
  "(0::nat) < 2 \<and> (0::nat) div 2 < 4 div 2 \<and> clean_label [65] \<and> clean_label [66] \<and>
   parseIndentedTree [65, 10, 32, 32, 32, 32, 66] 2 = [Node [65] [Node [66] []]] \<and>
   parseIndentedTree [65, 10, 32, 32, 32, 32, 32, 32, 66, 10, 32, 32, 32, 32, 67] 2 =
     [Node [65] [Node [66] [], Node [67] []]] \<and>
   parents_forest None 0
     (parseIndentedTree [65, 10, 32, 32, 32, 32, 32, 32, 66, 10, 32, 32, 32, 32, 67] 2) =
     [None, Some 0, Some 0]"
  using C7_deeper_line_is_direct_child[where indentSize = 2 and j = 0 and k = 4
      and a = "[65]" and b = "[66]"
      and input = "[65, 10, 32, 32, 32, 32, 32, 32, 66, 10, 32, 32, 32, 32, 67]"]
    clean_label_A clean_label_B
  by (simp add: replicate_4 lines_A_BBB_CC levels_A_BBB_CC line_parents_0_3_2 parse_A_BBB_CC)

section \<open>The importer on rendered lines\<close>

lemma find_index_skip:
  assumes "needle \<noteq> []" and "hd needle \<notin> set p"
  shows "find_index needle (p @ s) = map_option (\<lambda>i. length p + i) (find_index needle s)"
  using assms(2)
proof (induction p)
  case Nil
  show ?case by (simp add: option.map_ident)
next
  case (Cons c p)
  have "take (length needle) (c # p @ s) \<noteq> needle"
    using assms(1) Cons.prems by (cases needle) auto
  then show ?case using Cons by (simp add: option.map_comp comp_def)
qed

lemma find_index_here: "needle \<noteq> [] \<Longrightarrow> find_index needle (needle @ s) = Some 0"
proof -
  assume "needle \<noteq> []"
  then obtain c r where cr: "needle @ s = c # r" by (cases needle) auto
  have "take (length needle) (c # r) = needle"
    unfolding cr[symmetric] by simp
  then show ?thesis unfolding cr by simp
qed

lemma indexOf_neg: "indexOf needle s < 0 \<longleftrightarrow> find_index needle s = None"
  by (simp add: indexOf_def split: option.splits)

lemma is_prefix_no_tee: "is_prefix k p \<Longrightarrow> 9500 \<notin> set p \<and> 9492 \<notin> set p \<and> 10 \<notin> set p"
  by (auto simp: is_prefix_def)

lemma indexOf_tee_line:
  "is_prefix k p \<Longrightarrow> indexOf TEE (p @ TEE @ t) = int (length p)"
  using find_index_skip[of TEE p "TEE @ t"] find_index_here[of TEE t] is_prefix_no_tee[of k p]
  by (simp add: indexOf_def TEE_def)

lemma indexOf_elbow_line:
  assumes "is_prefix k p" and "indexOf TEE t < 0"
  shows "indexOf TEE (p @ ELBOW @ t) < 0" and "indexOf ELBOW (p @ ELBOW @ t) = int (length p)"
proof -
  have "find_index TEE ((p @ ELBOW) @ t) = map_option (\<lambda>i. length (p @ ELBOW) + i) (find_index TEE t)"
    using is_prefix_no_tee[OF assms(1)] by (intro find_index_skip) (auto simp: TEE_def ELBOW_def)
  then show "indexOf TEE (p @ ELBOW @ t) < 0"
    using assms(2) by (simp add: indexOf_neg)
  show "indexOf ELBOW (p @ ELBOW @ t) = int (length p)"
    using find_index_skip[of ELBOW p "ELBOW @ t"] find_index_here[of ELBOW t]
      is_prefix_no_tee[OF assms(1)]
    by (simp add: indexOf_def ELBOW_def)
qed

lemma not_connector_only_marker:
  assumes "c \<in> set l" and "\<not> is_ws c" and "c \<noteq> 9474"
  shows "trim l \<noteq> []" and "\<not> connector_only (trim l)"
proof -
  have "c \<in> set (trim l)" using assms(1,2) by (rule trim_keeps)
  then show "trim l \<noteq> []" by auto
  show "\<not> connector_only (trim l)"
    using \<open>c \<in> set (trim l)\<close> assms(2,3) by (auto simp: connector_only_def list_all_iff)
qed

lemma import_line_node:
  assumes "is_prefix k p" and "clean_label t" and "b \<Longrightarrow> indexOf TEE t < 0"
  shows "import_line n (p @ (if b then ELBOW else TEE) @ t) = Some (indent n (int (Suc k), t))"
proof -
  let ?m = "if b then ELBOW else TEE"
  let ?l = "p @ ?m @ t"
  have m: "length ?m = 3" "hd ?m \<in> set ?l" "\<not> is_ws (hd ?m)" "hd ?m \<noteq> 9474"
    by (auto simp: TEE_def ELBOW_def is_ws_def)
  have t: "trim t = t"
    using assms(2) by (simp add: clean_label_def trim_id)
  have nb: "length (trim ?l) \<noteq> 0" "\<not> connector_only (trim ?l)"
    using not_connector_only_marker[OF m(2,3,4)] by simp_all
  have idx: "(if indexOf TEE ?l \<ge> 0 then indexOf TEE ?l else indexOf ELBOW ?l) = int (length p)"
    using indexOf_tee_line[OF assms(1), of t] indexOf_elbow_line[OF assms(1), of t] assms(3)
    by (cases b) simp_all
  have len: "int (length p) div 3 + 1 = int (Suc k)"
    using assms(1) by (simp add: is_prefix_def)
  have "import_line n ?l =
        Some (replicate (nat (max 0 (int (length (take (length p) ?l)) div 3 + 1)) * n) 32 @
              trim (drop (nat (int (length p) + 3)) ?l))"
    unfolding import_line_def Let_def idx using nb by simp
  also have "drop (nat (int (length p) + 3)) ?l = t"
    using m(1) by (simp add: nat_add_distrib)
  also have "take (length p) ?l = p" by simp
  finally show ?thesis
    by (simp add: len t indent_def)
qed

lemma import_line_bar:
  assumes "is_prefix k p"
  shows "import_line n (p @ BAR) = None"
proof -
  have "9474 \<in> set (p @ BAR)" "\<not> is_ws 9474" by (simp_all add: BAR_def is_ws_def)
  then have 1: "trim (p @ BAR) \<noteq> []" using trim_keeps by fastforce
  have "set (trim (p @ BAR)) \<subseteq> {9474, 32}"
    using set_trim[of "p @ BAR"] assms by (auto simp: is_prefix_def BAR_def)
  then have "connector_only (trim (p @ BAR))"
    using 1 by (auto simp: connector_only_def list_all_iff)
  then show ?thesis using 1 by (simp add: import_line_def)
qed

lemma import_line_root:
  assumes "clean_label t" and "no_marker t" and "\<not> connector_only t"
  shows "import_line n t = Some t"
proof -
  have "trim t = t" "t \<noteq> []" "indexOf TEE t < 0" "indexOf ELBOW t < 0"
    using assms(1,2) by (simp_all add: clean_label_def trim_id no_marker_def)
  then show ?thesis using assms(3) by (simp add: import_line_def)
qed

lemma import_line_blank: "import_line n [] = Some []"
  by (simp add: import_line_def trim_def)

lemma map_filter_append:
  "List.map_filter f (xs @ ys) = List.map_filter f xs @ List.map_filter f ys"
  by (simp add: List.map_filter_def)

lemma map_filter_Cons_Some: "f x = Some y \<Longrightarrow> List.map_filter f (x # xs) = y # List.map_filter f xs"
  by (simp add: List.map_filter_def)

lemma map_filter_Cons_None: "f x = None \<Longrightarrow> List.map_filter f (x # xs) = List.map_filter f xs"
  by (simp add: List.map_filter_def)

lemma rendered_ok_append:
  "rendered_ok n xs fx \<Longrightarrow> rendered_ok n ys fy \<Longrightarrow> rendered_ok n (xs @ ys) (fx @ fy)"
  by (auto simp: rendered_ok_def map_filter_append)

lemma nice_line_bar: "is_prefix k p \<Longrightarrow> nice_line (p @ BAR)"
  by (auto simp: nice_line_def is_prefix_def BAR_def is_ws_def)

lemma nice_line_node:
  "is_prefix k p \<Longrightarrow> clean_label t \<Longrightarrow> nice_line (p @ (if b then ELBOW else TEE) @ t)"
  by (auto simp: nice_line_def is_prefix_def clean_label_def TEE_def ELBOW_def)

lemma rendered_ok_bar: "is_prefix k p \<Longrightarrow> rendered_ok n [p @ BAR] []"
  by (simp add: rendered_ok_def map_filter_Cons_None import_line_bar nice_line_bar)

lemma is_prefix_block:
  "is_prefix k p \<Longrightarrow> is_prefix (Suc k) (p @ (if b then BLANK_BLOCK else BAR_BLOCK))"
  by (auto simp: is_prefix_def BLANK_BLOCK_def BAR_BLOCK_def)

lemma render_children_ok:
  assumes "\<And>c. c \<in> set cs \<Longrightarrow> node_renders n c" and "is_prefix k p"
    and "last_tee_free_children cs"
  shows "rendered_ok n (render_children cs p) (flat_forest (Suc k) cs)"
  using assms(1,3)
proof (induction cs)
  case Nil
  show ?case by (simp add: rendered_ok_def)
next
  case (Cons c cs)
  have c: "rendered_ok n (render c p (cs = [])) (flat_node (Suc k) c)"
    using Cons.prems assms(2) by (auto simp: node_renders_def)
  have sep: "rendered_ok n (if cs \<noteq> [] then [p @ BAR] else []) []"
    using rendered_ok_bar[OF assms(2)] by (simp add: rendered_ok_def)
  have rest: "rendered_ok n (render_children cs p) (flat_forest (Suc k) cs)"
    using Cons by simp
  show ?case
    using rendered_ok_append[OF c rendered_ok_append[OF sep rest]] by simp
qed

lemma last_tee_free_child:
  "last_tee_free_children cs \<Longrightarrow> c \<in> set cs \<Longrightarrow> last_tee_free c"
  by (induction cs) auto

lemma node_renders_all:
  assumes "\<And>t. t \<in> set (labels_of c) \<Longrightarrow> clean_label t" and "last_tee_free c"
  shows "node_renders n c"
  using assms
proof (induction c)
  case (Node t cs)
  have t: "clean_label t" using Node.prems(1) by simp
  have ltf: "last_tee_free_children cs" using Node.prems(2) by simp
  have kids: "node_renders n c" if "c \<in> set cs" for c
  proof (rule Node.IH[OF that])
    fix u assume "u \<in> set (labels_of c)"
    then have "u \<in> set (forest_labels cs)"
      using that by (induction cs) auto
    then show "clean_label u" using Node.prems(1) by simp
  next
    show "last_tee_free c" using ltf that by (rule last_tee_free_child)
  qed
  show ?case unfolding node_renders_def
  proof (intro allI impI)
    fix k p b assume p: "is_prefix k p" and b: "b \<longrightarrow> indexOf TEE (node_text (Node t cs)) < 0"
    let ?cp = "p @ (if b then BLANK_BLOCK else BAR_BLOCK)"
    have "import_line n (p @ (if b then ELBOW else TEE) @ t) = Some (indent n (int (Suc k), t))"
      by (rule import_line_node[OF p t]) (use b in simp)
    then have head: "rendered_ok n [p @ (if b then ELBOW else TEE) @ t] [(int (Suc k), t)]"
      using nice_line_node[OF p t, of b]
      by (simp add: rendered_ok_def map_filter_Cons_Some)
    show "rendered_ok n (render (Node t cs) p b) (flat_node (Suc k) (Node t cs))"
    proof (cases "cs = []")
      case True
      then show ?thesis using head by simp
    next
      case False
      have cp: "is_prefix (Suc k) ?cp" using p by (rule is_prefix_block)
      have bar: "rendered_ok n [?cp @ BAR] []"
        using rendered_ok_bar[OF cp] .
      have ch: "rendered_ok n (render_children cs ?cp) (flat_forest (Suc (Suc k)) cs)"
        using render_children_ok[OF kids cp ltf] by (simp add: rendered_ok_def)
      show ?thesis
        using False rendered_ok_append[OF head rendered_ok_append[OF bar ch]]
        by (simp add: Let_def)
    qed
  qed
qed

lemma is_prefix_Nil: "is_prefix 0 []"
  by (simp add: is_prefix_def)

lemma render_root_children_ok:
  assumes "\<And>t. t \<in> set (forest_labels cs) \<Longrightarrow> clean_label t" and "last_tee_free_children cs"
  shows "rendered_ok n (render_root_children cs) (flat_forest (Suc 0) cs)"
  using assms
proof (induction cs)
  case Nil
  show ?case by (simp add: rendered_ok_def)
next
  case (Cons c cs)
  have "node_renders n c" using Cons.prems by (intro node_renders_all) simp_all
  then have c: "rendered_ok n (render c [] (cs = [])) (flat_node (Suc 0) c)"
    using is_prefix_Nil Cons.prems(2) by (auto simp: node_renders_def)
  show ?case
    using rendered_ok_append[OF c Cons.IH] Cons.prems by simp
qed

lemma nice_line_label: "clean_label t \<Longrightarrow> nice_line t"
  by (simp add: nice_line_def clean_label_def)

lemma render_roots_ok:
  assumes "\<And>t. t \<in> set (forest_labels ts) \<Longrightarrow> clean_label t \<and> \<not> connector_only t"
    and "\<And>r. r \<in> set ts \<Longrightarrow> no_marker (node_text r) \<and> last_tee_free r"
  shows "List.map_filter (import_line n) (render_roots ts) = import_roots n ts \<and>
         (\<forall>l \<in> set (render_roots ts). nice_line l)"
  using assms
proof (induction ts)
  case Nil
  show ?case by simp
next
  case (Cons r ts)
  obtain t cs where r: "r = Node t cs" by (cases r)
  have t: "clean_label t" "no_marker t" "\<not> connector_only t"
    using Cons.prems(1)[of t] Cons.prems(2)[of r] r by simp_all
  have ltf: "last_tee_free_children cs" using Cons.prems(2)[of r] r by simp
  have head: "rendered_ok n [t] [(0, t)]"
    using import_line_root[OF t, of n] t(1)
    by (simp add: rendered_ok_def map_filter_Cons_Some indent_def nice_line_label)
  have bar: "rendered_ok n [BAR] []"
    using rendered_ok_bar[OF is_prefix_Nil, of n] by simp
  have ch: "rendered_ok n (render_root_children cs) (flat_forest (Suc 0) cs)"
    using Cons.prems(1) r ltf by (intro render_root_children_ok) simp_all
  have kids: "rendered_ok n (if cs \<noteq> [] then BAR # render_root_children cs else []) (flat_forest (Suc 0) cs)"
    using rendered_ok_append[OF bar ch] by (cases cs) (simp_all add: rendered_ok_def)
  have first: "rendered_ok n (t # (if cs \<noteq> [] then BAR # render_root_children cs else []))
                 (flat_node 0 r)"
    using rendered_ok_append[OF head kids] by (simp add: r)
  have blank: "List.map_filter (import_line n) (if ts \<noteq> [] then [[]] else []) =
               (if ts \<noteq> [] then [[]] else [])"
    by (simp add: map_filter_Cons_Some import_line_blank)
  have IH: "List.map_filter (import_line n) (render_roots ts) = import_roots n ts"
    "\<forall>l \<in> set (render_roots ts). nice_line l"
    using Cons.IH Cons.prems by simp_all
  have 1: "render_roots (r # ts) =
           (t # (if cs \<noteq> [] then BAR # render_root_children cs else [])) @
           (if ts \<noteq> [] then [[]] else []) @ render_roots ts"
    by (simp add: r)
  show ?case
    unfolding 1 map_filter_append blank IH(1)
    using first IH(2) by (auto simp: rendered_ok_def nice_line_def)
qed

section \<open>Labels made of connector characters (C9)\<close>

lemma parse_child_bar:
  "parseIndentedTree [65, 10, 32, 32, 9474] 2 = [Node [65] [Node [9474] []]]"
  by (simp add: parse_defs string_defs)

lemma render_child_bar:
  "renderAsciiTree [Node [65] [Node [9474] []]] = [65, 10, 9474, 10, 9492, 9472, 32, 9474]"
  by (simp add: render_defs)

lemma import_child_bar:
  "importJiraToIndented [65, 10, 9474, 10, 9492, 9472, 32, 9474] 2 = [65, 10, 32, 32, 9474]"
proof -
  have 1: "strip_close_fence (strip_open_fence [65, 10, 9474, 10, 9492, 9472, 32, 9474])
           = [65, 10, 9474, 10, 9492, 9472, 32, 9474]"
    by (simp add: fence_defs string_defs)
  have 2: "map trimEnd (split_lines (replace_crlf [65, 10, 9474, 10, 9492, 9472, 32, 9474]))
           = [[65], [9474], [9492, 9472, 32, 9474]]"
    by (simp add: string_defs)
  have 3: "import_line 2 [65] = Some [65]" "import_line 2 [9474] = None"
    "import_line 2 [9492, 9472, 32, 9474] = Some [32, 32, 9474]"
    by (simp_all add: line_defs string_defs replicate_2)
  show ?thesis
    unfolding importJiraToIndented_unfold 1 2
    by (simp add: 3 List.map_filter_def pop_blank_def string_defs)
qed

text \<open>
  C9, the example of the claim. The tree from \<^verbatim>\<open>"A\n  |"\<close>, the bar being U+2502, has
  a child whose label is the bar alone. The renderer writes that child as elbow marker
  plus bar, which is not a connector-only line: the importer keeps it, and parsing the
  imported text gives the original tree back, the child included.
\<close>

theorem C9_child_bar_label_survives:
  "connector_only [9474] \<and>
   parseIndentedTree [65, 10, 32, 32, 9474] 2 = [Node [65] [Node [9474] []]] \<and>
   importJiraToIndented (renderAsciiTree (parseIndentedTree [65, 10, 32, 32, 9474] 2)) 2
     = [65, 10, 32, 32, 9474] \<and>
   parseIndentedTree
     (importJiraToIndented (renderAsciiTree (parseIndentedTree [65, 10, 32, 32, 9474] 2)) 2) 2
     = parseIndentedTree [65, 10, 32, 32, 9474] 2"
  by (simp add: parse_child_bar render_child_bar import_child_bar connector_only_def)

lemma parse_root_bar:
  "parseIndentedTree [9474, 10, 32, 32, 120] 2 = [Node [9474] [Node [120] []]]"
  by (simp add: parse_defs string_defs)

lemma render_root_bar:
  "renderAsciiTree [Node [9474] [Node [120] []]] = [9474, 10, 9474, 10, 9492, 9472, 32, 120]"
  by (simp add: render_defs)

lemma import_root_bar:
  "importJiraToIndented [9474, 10, 9474, 10, 9492, 9472, 32, 120] 2 = [32, 32, 120]"
proof -
  have 1: "strip_close_fence (strip_open_fence [9474, 10, 9474, 10, 9492, 9472, 32, 120])
           = [9474, 10, 9474, 10, 9492, 9472, 32, 120]"
    by (simp add: fence_defs string_defs)
  have 2: "map trimEnd (split_lines (replace_crlf [9474, 10, 9474, 10, 9492, 9472, 32, 120]))
           = [[9474], [9474], [9492, 9472, 32, 120]]"
    by (simp add: string_defs)
  have 3: "import_line 2 [9474] = None"
    "import_line 2 [9492, 9472, 32, 120] = Some [32, 32, 120]"
    by (simp_all add: line_defs string_defs replicate_2)
  show ?thesis
    unfolding importJiraToIndented_unfold 1 2
    by (simp add: 3 List.map_filter_def pop_blank_def string_defs)
qed

lemma parse_indented_x: "parseIndentedTree [32, 32, 120] 2 = [Node [120] []]"
  by (simp add: parse_defs string_defs)

lemma import_line_marker_kept:
  "import_line n (prefix @ (if isLast then ELBOW else TEE) @ t) \<noteq> None"
proof -
  let ?m = "if isLast then ELBOW else TEE"
  let ?l = "prefix @ ?m @ t"
  have "hd ?m \<in> set ?l" "\<not> is_ws (hd ?m)" "hd ?m \<noteq> 9474"
    by (auto simp: TEE_def ELBOW_def is_ws_def)
  then have "length (trim ?l) \<noteq> 0" "\<not> connector_only (trim ?l)"
    using not_connector_only_marker[of "hd ?m" ?l] by simp_all
  then show ?thesis
    by (simp add: import_line_def Let_def)
qed

text \<open>
  C9, amended. The loss happens for a root: a root's label is rendered without a marker.
  The tree from \<^verbatim>\<open>"|\n  x"\<close>, the bar being U+2502, has the root labelled by the bar
  alone with the child x. The importer drops the root's line as a spacer, and the tree
  parsed from the imported text is the single root x: no node of it is labelled by the
  bar. The line of a node that is not a root, which \<^verbatim>\<open>render\<close> writes as prefix, marker
  and label, is never dropped, whatever the label (last conjunct).
\<close>

theorem C9_root_bar_label_is_dropped:
  "connector_only [9474] \<and>
   parseIndentedTree [9474, 10, 32, 32, 120] 2 = [Node [9474] [Node [120] []]] \<and>
   import_line 2 [9474] = None \<and>
   importJiraToIndented (renderAsciiTree (parseIndentedTree [9474, 10, 32, 32, 120] 2)) 2
     = [32, 32, 120] \<and>
   parseIndentedTree
     (importJiraToIndented (renderAsciiTree (parseIndentedTree [9474, 10, 32, 32, 120] 2)) 2) 2
     = [Node [120] []] \<and>
   [9474] \<notin> set (forest_labels (parseIndentedTree
     (importJiraToIndented (renderAsciiTree (parseIndentedTree [9474, 10, 32, 32, 120] 2)) 2) 2)) \<and>
   import_line n (prefix @ (if isLast then ELBOW else TEE) @ t) \<noteq> None"
proof -
  have "import_line 2 [9474] = None"
    by (simp add: line_defs string_defs)
  then show ?thesis
    using import_line_marker_kept[of n prefix isLast t]
    by (simp add: parse_root_bar render_root_bar import_root_bar parse_indented_x
        connector_only_def)
qed

section \<open>Joining and splitting the rendered text\<close>

lemma replace_crlf_no_lf: "10 \<notin> set s \<Longrightarrow> replace_crlf s = s"
  by (induction s rule: replace_crlf.induct) auto

lemma replace_crlf_line:
  "nice_line l \<Longrightarrow> replace_crlf (l @ 10 # s) = l @ 10 # replace_crlf s"
proof (induction l)
  case Nil
  show ?case by (cases s) auto
next
  case (Cons c l)
  have l: "nice_line l" using Cons.prems by (auto simp: nice_line_def split: if_splits)
  show ?case
  proof (cases l)
    case Nil
    have "c \<noteq> 13" using Cons.prems Nil by (auto simp: nice_line_def is_ws_def)
    then show ?thesis using Nil by (cases s) auto
  next
    case (Cons d l')
    have "d \<noteq> 10" using \<open>nice_line (c # l)\<close> Cons by (auto simp: nice_line_def)
    then show ?thesis using Cons.IH[OF l] Cons by simp
  qed
qed

lemma replace_crlf_join:
  "\<forall>l \<in> set ls. nice_line l \<Longrightarrow> replace_crlf (join_lines ls) = join_lines ls"
proof (induction ls rule: join_lines.induct)
  case 1
  show ?case by simp
next
  case (2 l)
  then show ?case by (simp add: replace_crlf_no_lf nice_line_def)
next
  case (3 l m ls)
  then show ?case by (simp add: replace_crlf_line)
qed

lemma map_trimEnd_nice: "\<forall>l \<in> set ls. nice_line l \<Longrightarrow> map trimEnd ls = ls"
  by (induction ls) (auto simp: nice_line_def trimEnd_id)

lemma set_join_lines: "set (join_lines ls) \<subseteq> insert 10 (\<Union>l \<in> set ls. set l)"
  by (induction ls rule: join_lines.induct) auto

lemma pop_blank_id: "out = [] \<or> trim (last out) \<noteq> [] \<Longrightarrow> pop_blank out = out"
  by (cases out rule: rev_cases) (auto simp: pop_blank_def)

lemma indent_props:
  assumes "clean_label (snd lt)"
  shows "nice_line (indent n lt)" and "9 \<notin> set (indent n lt)" and "trim (indent n lt) = snd lt"
    and "trim (indent n lt) \<noteq> []"
  using assms trim_indented[OF assms, of "nat (fst lt) * n"]
  by (auto simp: indent_def nice_line_def clean_label_def)

lemma flat_labels:
  "map snd (flat_node d c) = labels_of c" "map snd (flat_forest d cs) = forest_labels cs"
  by (induction d c and d cs rule: flat_node_flat_forest.induct) auto

lemma flat_node_nonempty: "flat_node d c \<noteq> []"
  by (cases c) simp

lemma flat_node_clean:
  "(\<And>t. t \<in> set (labels_of c) \<Longrightarrow> clean_label t) \<Longrightarrow> lt \<in> set (flat_node d c) \<Longrightarrow>
   clean_label (snd lt)"
  using flat_labels(1)[of d c] by (metis image_eqI set_map)

lemma flat_node_indent:
  assumes "\<And>t. t \<in> set (labels_of r) \<Longrightarrow> clean_label t" and "l \<in> set (map (indent n) (flat_node d r))"
  shows "nice_line l \<and> 9 \<notin> set l \<and> trim l \<noteq> []"
proof -
  from assms(2) obtain lt where lt: "lt \<in> set (flat_node d r)" "l = indent n lt" by auto
  have "clean_label (snd lt)" using flat_node_clean[OF assms(1) lt(1)] by simp
  then show ?thesis using indent_props[of lt n] lt(2) by simp
qed

lemma import_roots_nice:
  assumes "\<And>t. t \<in> set (forest_labels ts) \<Longrightarrow> clean_label t"
  shows "\<forall>l \<in> set (import_roots n ts). nice_line l \<and> 9 \<notin> set l"
  using assms
proof (induction ts)
  case Nil
  show ?case by simp
next
  case (Cons r ts)
  have "nice_line l \<and> 9 \<notin> set l" if "l \<in> set (map (indent n) (flat_node 0 r))" for l
    using flat_node_indent[OF _ that] Cons.prems by simp
  moreover have "nice_line []" by (simp add: nice_line_def)
  ultimately show ?case using Cons by auto
qed

lemma import_roots_filter:
  assumes "\<And>t. t \<in> set (forest_labels ts) \<Longrightarrow> clean_label t"
  shows "filter (\<lambda>l. length (trim l) > 0) (import_roots n ts) = map (indent n) (flat_forest 0 ts)"
  using assms
proof (induction ts)
  case Nil
  show ?case by simp
next
  case (Cons r ts)
  have "trim l \<noteq> []" if "l \<in> set (map (indent n) (flat_node 0 r))" for l
    using flat_node_indent[OF _ that] Cons.prems by simp
  then have "filter (\<lambda>l. length (trim l) > 0) (map (indent n) (flat_node 0 r)) =
             map (indent n) (flat_node 0 r)"
    by (simp add: filter_id_conv)
  then show ?case using Cons by (simp add: trim_def)
qed

lemma import_roots_last:
  assumes "\<And>t. t \<in> set (forest_labels ts) \<Longrightarrow> clean_label t" and "ts \<noteq> []"
  shows "import_roots n ts \<noteq> [] \<and> trim (last (import_roots n ts)) \<noteq> []"
  using assms
proof (induction ts)
  case Nil
  then show ?case by simp
next
  case (Cons r ts)
  show ?case
  proof (cases "ts = []")
    case True
    have ne: "map (indent n) (flat_node 0 r) \<noteq> []"
      using flat_node_nonempty[of 0 r] by simp
    then have "last (map (indent n) (flat_node 0 r)) \<in> set (map (indent n) (flat_node 0 r))"
      by (rule last_in_set)
    then have "trim (last (map (indent n) (flat_node 0 r))) \<noteq> []"
      using flat_node_indent[of r _ n 0] Cons.prems(1) by simp
    then show ?thesis using True ne by simp
  next
    case False
    then show ?thesis using Cons by simp
  qed
qed

section \<open>The round trip (C1)\<close>

lemma parse_lines_of_import_roots:
  assumes "\<And>t. t \<in> set (forest_labels ts) \<Longrightarrow> clean_label t" and "ts \<noteq> []"
  shows "parse_lines_of n (join_lines (import_roots n ts)) = map (indent n) (flat_forest 0 ts)"
proof -
  let ?X = "import_roots n ts"
  have nice: "\<forall>l \<in> set ?X. nice_line l \<and> 9 \<notin> set l"
    using import_roots_nice[OF assms(1)] by simp
  have ne: "?X \<noteq> []" using import_roots_last[OF assms] by simp
  have "9 \<notin> set (join_lines ?X)"
    using set_join_lines[of ?X] nice by auto
  then have 1: "concat (map (\<lambda>c. if c = 9 then replicate n 32 else [c]) (join_lines ?X)) = join_lines ?X"
    by (rule expand_tabs_id)
  have 2: "split_lines (join_lines ?X) = ?X"
    using ne nice by (intro split_join_lines) (auto simp: nice_line_def)
  have 3: "map trimEnd ?X = ?X"
    using nice by (intro map_trimEnd_nice) simp
  show ?thesis
    unfolding parse_lines_of_def 1 2 3 by (rule import_roots_filter[OF assms(1)])
qed

lemma flat_levels:
  "\<forall>lt \<in> set (flat_node d c). 0 \<le> fst lt" "\<forall>lt \<in> set (flat_forest d cs). 0 \<le> fst lt"
  by (induction d c and d cs rule: flat_node_flat_forest.induct) auto

lemma leveled_indent:
  assumes "0 < n" and "clean_label (snd lt)" and "0 \<le> fst lt"
  shows "leveled n (indent n lt) = lt"
  using leveled_indented[OF assms(1,2), of "nat (fst lt)"] assms(3)
  by (simp add: indent_def)

lemma map_leveled_indent:
  assumes "0 < n" and "\<And>t. t \<in> set (forest_labels ts) \<Longrightarrow> clean_label t"
  shows "map (leveled n) (map (indent n) (flat_forest d ts)) = flat_forest d ts"
proof -
  have "leveled n (indent n lt) = lt" if "lt \<in> set (flat_forest d ts)" for lt
  proof -
    have "snd lt \<in> set (forest_labels ts)"
      using that flat_labels(2)[of d ts] by (metis image_eqI set_map)
    then have cl: "clean_label (snd lt)" by (rule assms(2))
    have "0 \<le> fst lt" using that flat_levels(2)[of d ts] by simp
    with cl show ?thesis by (intro leveled_indent assms(1))
  qed
  then show ?thesis by (simp add: map_idI)
qed

lemma parse_import_roots:
  assumes "0 < n" and "\<And>t. t \<in> set (forest_labels ts) \<Longrightarrow> clean_label t"
  shows "parseIndentedTree (join_lines (import_roots n ts)) n = ts"
proof (cases "ts = []")
  case True
  have "parse_lines_of n [] = []"
    by (simp add: parse_lines_of_def trim_def)
  then show ?thesis using True by (simp add: parseIndentedTree_frames build_forest_def)
next
  case False
  have a: "parse_lines_of n (join_lines (import_roots n ts)) = map (indent n) (flat_forest 0 ts)"
    by (rule parse_lines_of_import_roots) (use assms(2) False in auto)
  have b: "map (leveled n) (map (indent n) (flat_forest 0 ts)) = flat_forest 0 ts"
    by (rule map_leveled_indent) (use assms in auto)
  show ?thesis
    by (simp only: parseIndentedTree_frames a b build_forest_flat_forest)
qed

lemma import_render_roots:
  assumes "\<And>t. t \<in> set (forest_labels ts) \<Longrightarrow> clean_label t \<and> \<not> connector_only t"
    and "\<And>r. r \<in> set ts \<Longrightarrow> no_marker (node_text r) \<and> last_tee_free r"
    and "strip_close_fence (strip_open_fence (renderAsciiTree ts)) = renderAsciiTree ts"
  shows "importJiraToIndented (renderAsciiTree ts) n = join_lines (import_roots n ts)"
proof (cases "ts = []")
  case True
  have "import_line n [] = Some []" by (rule import_line_blank)
  then show ?thesis
    using True assms(3)
    by (simp add: importJiraToIndented_unfold renderAsciiTree_def List.map_filter_def
        pop_blank_def trim_def)
next
  case False
  let ?R = "render_roots ts"
  have ok: "List.map_filter (import_line n) ?R = import_roots n ts" "\<forall>l \<in> set ?R. nice_line l"
    using render_roots_ok[where ts = ts and n = n] assms(1,2) by simp_all
  have ne: "?R \<noteq> []" using False by (cases ts) auto
  have cl: "\<And>t. t \<in> set (forest_labels ts) \<Longrightarrow> clean_label t"
    using assms(1) by simp
  have 1: "replace_crlf (join_lines ?R) = join_lines ?R"
    using ok(2) by (rule replace_crlf_join)
  have 2: "split_lines (join_lines ?R) = ?R"
    using ne ok(2) by (intro split_join_lines) (auto simp: nice_line_def)
  have 3: "map trimEnd ?R = ?R"
    using ok(2) by (rule map_trimEnd_nice)
  have 4: "pop_blank (import_roots n ts) = import_roots n ts"
    using import_roots_last[where ts = ts and n = n] cl False by (intro pop_blank_id) simp
  have "importJiraToIndented (renderAsciiTree ts) n =
        join_lines (pop_blank (List.map_filter (import_line n)
          (map trimEnd (split_lines (replace_crlf (renderAsciiTree ts))))))"
    by (simp only: importJiraToIndented_unfold assms(3))
  then show ?thesis
    by (simp only: renderAsciiTree_def 1 2 3 ok(1) 4)
qed

text \<open>
  C1, amended. Let \<open>roots\<close> be the forest parsed from some input with a positive indent
  size. If no label is a pure-connector string, no root label holds a connector marker
  (tee or elbow, with its space), no label of a last child holds the tee marker, and the
  rendered text carries no fence, that is, the importer's two fence removals leave it as
  it is, then parsing the import of the rendering of \<open>roots\<close> with the same indent size
  gives \<open>roots\<close> back. Labels of children may hold the elbow marker, and labels of
  children that are not last may hold the tee marker.
\<close>

theorem C1_round_trip_amended:
  assumes "0 < indentSize"
    and "roots = parseIndentedTree input indentSize"
    and "list_all (\<lambda>t. \<not> connector_only t) (forest_labels roots)"
    and "list_all (\<lambda>r. no_marker (node_text r)) roots"
    and "list_all last_tee_free roots"
    and "strip_close_fence (strip_open_fence (renderAsciiTree roots)) = renderAsciiTree roots"
  shows "parseIndentedTree (importJiraToIndented (renderAsciiTree roots) indentSize) indentSize
         = roots"
proof -
  have cl: "clean_label t" if "t \<in> set (forest_labels roots)" for t
    using that parse_labels_clean[of t input indentSize] assms(2) by simp
  have good: "clean_label t \<and> \<not> connector_only t" if "t \<in> set (forest_labels roots)" for t
    using that cl[OF that] assms(3) by (auto simp: list_all_iff)
  have rts: "no_marker (node_text r) \<and> last_tee_free r" if "r \<in> set roots" for r
    using that assms(4,5) by (auto simp: list_all_iff)
  have "importJiraToIndented (renderAsciiTree roots) indentSize =
        join_lines (import_roots indentSize roots)"
    by (rule import_render_roots) (use good rts assms(6) in auto)
  moreover have "parseIndentedTree (join_lines (import_roots indentSize roots)) indentSize = roots"
    by (rule parse_import_roots) (use assms(1) cl in auto)
  ultimately show ?thesis by simp
qed

lemma parse_marked_children:
  "parseIndentedTree [65, 10, 32, 32, 120, 32, 9500, 9472, 32, 121, 10,
                      32, 32, 120, 32, 9492, 9472, 32, 121, 10, 66] 2 =
     [Node [65] [Node [120, 32, 9500, 9472, 32, 121] [], Node [120, 32, 9492, 9472, 32, 121] []],
      Node [66] []]"
  by (simp add: parse_defs string_defs)

lemma render_marked_children:
  "renderAsciiTree
     [Node [65] [Node [120, 32, 9500, 9472, 32, 121] [], Node [120, 32, 9492, 9472, 32, 121] []],
      Node [66] []] =
     [65, 10, 9474, 10, 9500, 9472, 32, 120, 32, 9500, 9472, 32, 121, 10,
      9492, 9472, 32, 120, 32, 9492, 9472, 32, 121, 10, 10, 66]"
  by (simp add: render_defs)

theorem C1_witness:
  "(0::nat) < 2 \<and>
   list_all (\<lambda>t. \<not> connector_only t)
     (forest_labels (parseIndentedTree [65, 10, 32, 32, 120, 32, 9500, 9472, 32, 121, 10,
                      32, 32, 120, 32, 9492, 9472, 32, 121, 10, 66] 2)) \<and>
   list_all (\<lambda>r. no_marker (node_text r))
     (parseIndentedTree [65, 10, 32, 32, 120, 32, 9500, 9472, 32, 121, 10,
                      32, 32, 120, 32, 9492, 9472, 32, 121, 10, 66] 2) \<and>
   list_all last_tee_free
     (parseIndentedTree [65, 10, 32, 32, 120, 32, 9500, 9472, 32, 121, 10,
                      32, 32, 120, 32, 9492, 9472, 32, 121, 10, 66] 2) \<and>
   strip_close_fence (strip_open_fence (renderAsciiTree
     (parseIndentedTree [65, 10, 32, 32, 120, 32, 9500, 9472, 32, 121, 10,
                      32, 32, 120, 32, 9492, 9472, 32, 121, 10, 66] 2))) =
     renderAsciiTree (parseIndentedTree [65, 10, 32, 32, 120, 32, 9500, 9472, 32, 121, 10,
                      32, 32, 120, 32, 9492, 9472, 32, 121, 10, 66] 2) \<and>
   parseIndentedTree (importJiraToIndented (renderAsciiTree
     (parseIndentedTree [65, 10, 32, 32, 120, 32, 9500, 9472, 32, 121, 10,
                      32, 32, 120, 32, 9492, 9472, 32, 121, 10, 66] 2)) 2) 2 =
     [Node [65] [Node [120, 32, 9500, 9472, 32, 121] [], Node [120, 32, 9492, 9472, 32, 121] []],
      Node [66] []]"
proof -
  let ?input = "[65, 10, 32, 32, 120, 32, 9500, 9472, 32, 121, 10,
                 32, 32, 120, 32, 9492, 9472, 32, 121, 10, 66] :: jsstring"
  have l: "list_all (\<lambda>t. \<not> connector_only t) (forest_labels (parseIndentedTree ?input 2))"
    by (simp add: parse_marked_children connector_only_def is_ws_def)
  have r: "list_all (\<lambda>r. no_marker (node_text r)) (parseIndentedTree ?input 2)"
    by (simp add: parse_marked_children no_marker_def indexOf_def TEE_def ELBOW_def)
  have c: "list_all last_tee_free (parseIndentedTree ?input 2)"
    by (simp add: parse_marked_children indexOf_def TEE_def)
  have f: "strip_close_fence (strip_open_fence (renderAsciiTree (parseIndentedTree ?input 2))) =
           renderAsciiTree (parseIndentedTree ?input 2)"
    by (simp add: parse_marked_children render_marked_children fence_defs string_defs)
  have "parseIndentedTree (importJiraToIndented (renderAsciiTree
          (parseIndentedTree ?input 2)) 2) 2 = parseIndentedTree ?input 2"
    using C1_round_trip_amended[OF _ refl l r c f] by simp
  then show ?thesis using l r c f by (simp add: parse_marked_children)
qed

lemma parse_marker_root:
  "parseIndentedTree [97, 32, 9500, 9472, 32, 98] 2 = [Node [97, 32, 9500, 9472, 32, 98] []]"
  by (simp add: parse_defs string_defs)

lemma render_marker_root:
  "renderAsciiTree [Node [97, 32, 9500, 9472, 32, 98] []] = [97, 32, 9500, 9472, 32, 98]"
  by (simp add: render_defs)

lemma import_marker_root:
  "importJiraToIndented [97, 32, 9500, 9472, 32, 98] 2 = [32, 32, 98]"
proof -
  have 1: "strip_close_fence (strip_open_fence [97, 32, 9500, 9472, 32, 98]) =
           [97, 32, 9500, 9472, 32, 98]"
    by (simp add: fence_defs string_defs)
  have 2: "map trimEnd (split_lines (replace_crlf [97, 32, 9500, 9472, 32, 98])) =
           [[97, 32, 9500, 9472, 32, 98]]"
    by (simp add: string_defs)
  have 3: "import_line 2 [97, 32, 9500, 9472, 32, 98] = Some [32, 32, 98]"
    by (simp add: line_defs string_defs replicate_2)
  show ?thesis
    unfolding importJiraToIndented_unfold 1 2
    by (simp add: 3 List.map_filter_def pop_blank_def string_defs)
qed

lemma parse_indented_b: "parseIndentedTree [32, 32, 98] 2 = [Node [98] []]"
  by (simp add: parse_defs string_defs)

lemma parse_elbow_root:
  "parseIndentedTree [97, 32, 9492, 9472, 32, 98] 2 = [Node [97, 32, 9492, 9472, 32, 98] []]"
  by (simp add: parse_defs string_defs)

lemma render_elbow_root:
  "renderAsciiTree [Node [97, 32, 9492, 9472, 32, 98] []] = [97, 32, 9492, 9472, 32, 98]"
  by (simp add: render_defs)

lemma import_elbow_root:
  "importJiraToIndented [97, 32, 9492, 9472, 32, 98] 2 = [32, 32, 98]"
proof -
  have 1: "strip_close_fence (strip_open_fence [97, 32, 9492, 9472, 32, 98]) =
           [97, 32, 9492, 9472, 32, 98]"
    by (simp add: fence_defs string_defs)
  have 2: "map trimEnd (split_lines (replace_crlf [97, 32, 9492, 9472, 32, 98])) =
           [[97, 32, 9492, 9472, 32, 98]]"
    by (simp add: string_defs)
  have 3: "import_line 2 [97, 32, 9492, 9472, 32, 98] = Some [32, 32, 98]"
    by (simp add: line_defs string_defs replicate_2)
  show ?thesis
    unfolding importJiraToIndented_unfold 1 2
    by (simp add: 3 List.map_filter_def pop_blank_def string_defs)
qed

lemma parse_fence_root:
  "parseIndentedTree [123, 99, 111, 100, 101, 125] 2 = [Node [123, 99, 111, 100, 101, 125] []]"
  by (simp add: parse_defs string_defs)

lemma render_fence_root:
  "renderAsciiTree [Node [123, 99, 111, 100, 101, 125] []] = [123, 99, 111, 100, 101, 125]"
  by (simp add: render_defs)

lemma import_fence_root: "importJiraToIndented [123, 99, 111, 100, 101, 125] 2 = []"
proof -
  have 1: "strip_close_fence (strip_open_fence [123, 99, 111, 100, 101, 125]) = []"
    by (simp add: fence_defs string_defs)
  have 2: "map trimEnd (split_lines (replace_crlf [])) = [[]]"
    by (simp add: string_defs)
  have 3: "import_line 2 [] = Some []"
    by (simp add: line_defs string_defs)
  show ?thesis
    unfolding importJiraToIndented_unfold 1 2
    by (simp add: 3 List.map_filter_def pop_blank_def string_defs)
qed

lemma parse_empty: "parseIndentedTree [] n = []"
  by (simp add: parse_defs string_defs)

text \<open>
  C1 as stated fails on inputs whose labels are not pure-connector strings. The
  single line \<^verbatim>\<open>a\<close>, space, tee marker, \<^verbatim>\<open>b\<close> parses to one root with that label; the
  renderer writes a root bare, the importer splits the line at the marker, and the tree
  parsed from the import is the single root \<^verbatim>\<open>b\<close>. The same happens with the elbow
  marker in place of the tee marker. The single line \<^verbatim>\<open>{code}\<close> parses to
  one root labelled \<^verbatim>\<open>{code}\<close>; the importer strips the rendering as a fence and the
  tree parsed from the import is empty.
\<close>

theorem C1_round_trip_counterexample:
  "\<not> connector_only [97, 32, 9500, 9472, 32, 98] \<and>
   parseIndentedTree [97, 32, 9500, 9472, 32, 98] 2 = [Node [97, 32, 9500, 9472, 32, 98] []] \<and>
   parseIndentedTree (importJiraToIndented (renderAsciiTree
     (parseIndentedTree [97, 32, 9500, 9472, 32, 98] 2)) 2) 2 = [Node [98] []] \<and>
   parseIndentedTree (importJiraToIndented (renderAsciiTree
     (parseIndentedTree [97, 32, 9500, 9472, 32, 98] 2)) 2) 2 \<noteq>
     parseIndentedTree [97, 32, 9500, 9472, 32, 98] 2 \<and>
   \<not> connector_only [97, 32, 9492, 9472, 32, 98] \<and>
   parseIndentedTree [97, 32, 9492, 9472, 32, 98] 2 = [Node [97, 32, 9492, 9472, 32, 98] []] \<and>
   parseIndentedTree (importJiraToIndented (renderAsciiTree
     (parseIndentedTree [97, 32, 9492, 9472, 32, 98] 2)) 2) 2 = [Node [98] []] \<and>
   parseIndentedTree (importJiraToIndented (renderAsciiTree
     (parseIndentedTree [97, 32, 9492, 9472, 32, 98] 2)) 2) 2 \<noteq>
     parseIndentedTree [97, 32, 9492, 9472, 32, 98] 2 \<and>
   \<not> connector_only [123, 99, 111, 100, 101, 125] \<and>
   parseIndentedTree [123, 99, 111, 100, 101, 125] 2 = [Node [123, 99, 111, 100, 101, 125] []] \<and>
   parseIndentedTree (importJiraToIndented (renderAsciiTree
     (parseIndentedTree [123, 99, 111, 100, 101, 125] 2)) 2) 2 = [] \<and>
   parseIndentedTree (importJiraToIndented (renderAsciiTree
     (parseIndentedTree [123, 99, 111, 100, 101, 125] 2)) 2) 2 \<noteq>
     parseIndentedTree [123, 99, 111, 100, 101, 125] 2"
  by (simp add: parse_marker_root render_marker_root import_marker_root parse_indented_b
      parse_elbow_root render_elbow_root import_elbow_root
      parse_fence_root render_fence_root import_fence_root parse_empty connector_only_def
      is_ws_def)

section \<open>The layout of the empty array (C4)\<close>

lemma parse_empty_input: "parseIndentedTree [] indentSize = []"
  by (simp add: parse_defs string_defs)

lemma flattenTree_empty: "flattenTree [] = []"
  by (simp add: flattenTree_def)

lemma layout_empty:
  "layoutTreeForSvg measureTextPx [] = Some \<lparr>positioned = [], width = Fin 920, height = Fin 620\<rparr>"
  by (simp add: layoutTreeForSvg_def byId_of_def sizes_of_def maxHPerDepth_of_def Math_min_def
      Math_max_def js_max2_def js_min2_def js_sub_def truthy_def MARGIN_def MIN_CANVAS_W_def
      MIN_CANVAS_H_def GAP_Y_def Let_def)

text \<open>
  C4 as stated. The empty input parses to no root and flattens to the empty array. With
  the fallback measure of the source (seven pixels a character) the layout of that array
  is 920 wide and 620 high: not the configured minimum canvas size, 900 by 600.
\<close>

theorem C4_empty_layout_counterexample:
  "parseIndentedTree [] 2 = [] \<and>
   flattenTree (parseIndentedTree [] 2) = [] \<and>
   map_option width (layoutTreeForSvg (\<lambda>s. Fin (7 * of_nat (length s)))
     (flattenTree (parseIndentedTree [] 2))) = Some (Fin 920) \<and>
   map_option width (layoutTreeForSvg (\<lambda>s. Fin (7 * of_nat (length s)))
     (flattenTree (parseIndentedTree [] 2))) \<noteq> Some MIN_CANVAS_W \<and>
   map_option height (layoutTreeForSvg (\<lambda>s. Fin (7 * of_nat (length s)))
     (flattenTree (parseIndentedTree [] 2))) \<noteq> Some MIN_CANVAS_H"
  by (simp add: parse_empty_input flattenTree_empty layout_empty MIN_CANVAS_W_def MIN_CANVAS_H_def)

text \<open>
  C4, amended. For every indent size and every text measure, the empty input parses to no
  root, flattens to the empty array, and the layout of that array returns (it throws
  nothing) no positioned node and a canvas of the configured minimum size plus the margin
  on each axis: 920 by 620, both finite.
\<close>

theorem C4_empty_layout:
  "parseIndentedTree [] indentSize = [] \<and>
   flattenTree (parseIndentedTree [] indentSize) = [] \<and>
   layoutTreeForSvg measureTextPx (flattenTree (parseIndentedTree [] indentSize)) =
     Some \<lparr>positioned = [],
            width = js_add MIN_CANVAS_W MARGIN,
            height = js_add MIN_CANVAS_H MARGIN\<rparr> \<and>
   js_add MIN_CANVAS_W MARGIN = Fin 920 \<and> js_add MIN_CANVAS_H MARGIN = Fin 620"
  by (simp add: parse_empty_input flattenTree_empty layout_empty MIN_CANVAS_W_def MIN_CANVAS_H_def
      MARGIN_def)

section \<open>The entries of the flat array\<close>

lemma walk_went:
  "walk c d par nx = (went c d par nx, nx + nsize c)"
  "walk_children cs d my nx = (wents cs d (Some my) nx, child_ids nx cs, nx + fsize cs)"
  by (induction c d par nx and cs d my nx rule: walk_walk_children.induct) simp_all

lemma walk_roots_wents: "walk_roots rs nx = wents rs 0 None nx"
  by (induction rs nx rule: walk_roots.induct) (simp_all add: walk_went)

lemma flattenTree_wents: "flattenTree roots = wents roots 0 None 1"
  by (simp add: flattenTree_def walk_roots_wents)

lemma length_went:
  "length (went c d par nx) = nsize c" "length (wents cs d par nx) = fsize cs"
  by (induction c d par nx and cs d par nx rule: went_wents.induct) simp_all

lemma ids_went:
  "map node_id (went c d par nx) = [nx..<nx + nsize c]"
  "map node_id (wents cs d par nx) = [nx..<nx + fsize cs]"
proof (induction c d par nx and cs d par nx rule: went_wents.induct)
  case (1 t cs d par nx)
  then show ?case by (simp add: upt_conv_Cons)
next
  case (2 d par nx)
  show ?case by simp
next
  case (3 c cs d par nx)
  have "[nx..<nx + (nsize c + fsize cs)] =
        [nx..<nx + nsize c] @ [nx + nsize c..<nx + nsize c + fsize cs]"
    using upt_add_eq_append[of nx "nx + nsize c" "fsize cs"] by (simp add: add.assoc)
  with 3 show ?case by (simp add: add.assoc)
qed

lemma length_child_ids [simp]: "length (child_ids nx cs) = length cs"
  by (induction cs arbitrary: nx) auto

lemma nsize_pos [simp]: "0 < nsize c"
  by (cases c) simp

lemma nleaves_pos: "0 < nleaves c" "cs \<noteq> [] \<Longrightarrow> 0 < fleaves cs"
  by (induction c and cs rule: nleaves_fleaves.induct) auto

lemma height_le_size: "tree_height c \<le> nsize c" "forest_height cs \<le> fsize cs"
  by (induction c and cs rule: tree_height_forest_height.induct) auto

lemma parent_wents:
  "par \<noteq> None \<Longrightarrow> \<forall>e \<in> set (went c d par nx). parentId e \<noteq> None"
  "par \<noteq> None \<Longrightarrow> \<forall>e \<in> set (wents cs d par nx). parentId e \<noteq> None"
  by (induction c d par nx and cs d par nx rule: went_wents.induct) auto

lemma roots_of_wents:
  "map node_id (filter (\<lambda>n. parentId n = None) (wents rs d None nx)) = child_ids nx rs"
proof (induction rs arbitrary: nx)
  case Nil
  show ?case by simp
next
  case (Cons r rs)
  obtain t cs where r: "r = Node t cs" by (cases r)
  have "filter (\<lambda>n. parentId n = None) (wents cs (Suc d) (Some nx) (Suc nx)) = []"
    using parent_wents(2)[of "Some nx" cs "Suc d" "Suc nx"] by (simp add: filter_empty_conv)
  then show ?case using Cons by (simp add: r)
qed

section \<open>Lookups by id\<close>

lemma foldl_upd_other:
  "k \<notin> node_id ` set xs \<Longrightarrow> foldl (\<lambda>m n. m(node_id n \<mapsto> g n)) m0 xs k = m0 k"
  by (induction xs arbitrary: m0) auto

lemma foldl_upd_distinct:
  "distinct (map node_id xs) \<Longrightarrow> e \<in> set xs \<Longrightarrow>
   foldl (\<lambda>m n. m(node_id n \<mapsto> g n)) m0 xs (node_id e) = Some (g e)"
proof (induction xs arbitrary: m0)
  case Nil
  then show ?case by simp
next
  case (Cons x xs)
  show ?case
  proof (cases "e \<in> set xs")
    case True
    then show ?thesis using Cons by simp
  next
    case False
    then have e: "e = x" using Cons.prems by simp
    have "node_id x \<notin> node_id ` set xs" using Cons.prems(1) by simp
    then have "foldl (\<lambda>m n. m(node_id n \<mapsto> g n)) (m0(node_id x \<mapsto> g x)) xs (node_id x) =
               (m0(node_id x \<mapsto> g x)) (node_id x)"
      by (rule foldl_upd_other)
    then show ?thesis by (simp only: e foldl_Cons fun_upd_same)
  qed
qed

lemma covered_byId: "distinct (map node_id flat) \<Longrightarrow> covered (byId_of flat) flat"
  unfolding covered_def byId_of_def
  using foldl_upd_distinct[where g = "\<lambda>n. n"] by blast

lemma covered_flatten: "covered (byId_of (flattenTree roots)) (wents roots 0 None 1)"
  using covered_byId[of "flattenTree roots"] by (simp add: flattenTree_wents ids_went)

lemma covered_append: "covered byId (xs @ ys) \<longleftrightarrow> covered byId xs \<and> covered byId ys"
  by (auto simp: covered_def)

lemma covered_root:
  assumes "covered byId (went (Node t cs) d par nx)"
  shows "byId nx = Some \<lparr>node_id = nx, flat_text = t, depth = d, parentId = par,
           childrenIds = child_ids (Suc nx) cs\<rparr>"
    and "covered byId (wents cs (Suc d) (Some nx) (Suc nx))"
    and "isLeaf byId nx \<longleftrightarrow> cs = []"
  using assms by (auto simp: covered_def isLeaf_def)

section \<open>The columns of the leaves\<close>

lemma assignLeaves_each_forest:
  assumes "\<And>c d par nx fuel lx cur. c \<in> set cs \<Longrightarrow> covered byId (went c d par nx) \<Longrightarrow>
             tree_height c \<le> fuel \<Longrightarrow>
             assignLeaves byId fuel (lx, cur) nx = Some (leafmap c nx cur lx, cur + nleaves c)"
    and "covered byId (wents cs d par nx)" and "forest_height cs \<le> fuel"
  shows "assignLeaves_each byId fuel (lx, cur) (child_ids nx cs) =
         Some (leafmap_f cs nx cur lx, cur + fleaves cs)"
  using assms
proof (induction cs arbitrary: nx lx cur)
  case Nil
  show ?case by simp
next
  case (Cons c cs)
  have c: "assignLeaves byId fuel (lx, cur) nx = Some (leafmap c nx cur lx, cur + nleaves c)"
    using Cons.prems(2,3) by (intro Cons.prems(1)[where d = d and par = par]) (auto simp: covered_append)
  have "assignLeaves_each byId fuel (leafmap c nx cur lx, cur + nleaves c)
          (child_ids (nx + nsize c) cs) =
        Some (leafmap_f cs (nx + nsize c) (cur + nleaves c) (leafmap c nx cur lx),
              cur + nleaves c + fleaves cs)"
    using Cons.prems by (intro Cons.IH) (auto simp: covered_append)
  then show ?case using c by (simp add: add.assoc)
qed

lemma assignLeaves_node:
  "covered byId (went c d par nx) \<Longrightarrow> tree_height c \<le> fuel \<Longrightarrow>
   assignLeaves byId fuel (lx, cur) nx = Some (leafmap c nx cur lx, cur + nleaves c)"
proof (induction c arbitrary: d par nx fuel lx cur)
  case (Node t cs)
  obtain fuel' where fuel: "fuel = Suc fuel'" and h: "forest_height cs \<le> fuel'"
    using Node.prems(2) by (cases fuel) auto
  note r = covered_root[OF Node.prems(1)]
  show ?case
  proof (cases "cs = []")
    case True
    then show ?thesis using r(3) by (simp add: fuel fun_upd_def)
  next
    case False
    have "assignLeaves_each byId fuel' (lx, cur) (child_ids (Suc nx) cs) =
          Some (leafmap_f cs (Suc nx) cur lx, cur + fleaves cs)"
      using Node.IH r(2) h by (rule assignLeaves_each_forest)
    then show ?thesis using False r(1,3) by (simp add: fuel)
  qed
qed

lemma assignLeaves_each_wents:
  assumes "covered byId (wents cs d par nx)" and "forest_height cs \<le> fuel"
  shows "assignLeaves_each byId fuel (lx, cur) (child_ids nx cs) =
         Some (leafmap_f cs nx cur lx, cur + fleaves cs)"
  using assignLeaves_node assms by (rule assignLeaves_each_forest)

lemma leafmap_frame:
  "i < nx \<Longrightarrow> leafmap c nx cur lx i = lx i"
  "i < nx \<Longrightarrow> leafmap_f cs nx cur lx i = lx i"
  by (induction c nx cur lx and cs nx cur lx rule: leafmap_leafmap_f.induct) auto

lemma lvs_range:
  "(i, k) \<in> set (lvs c nx cur) \<Longrightarrow> nx \<le> i \<and> i < nx + nsize c"
  "(i, k) \<in> set (lvs_f cs nx cur) \<Longrightarrow> nx \<le> i \<and> i < nx + fsize cs"
  by (induction c nx cur and cs nx cur rule: lvs_lvs_f.induct) (auto split: if_splits)

lemma leafmap_lvs:
  "(i, k) \<in> set (lvs c nx cur) \<Longrightarrow> leafmap c nx cur lx i = Some k"
  "(i, k) \<in> set (lvs_f cs nx cur) \<Longrightarrow> leafmap_f cs nx cur lx i = Some k"
proof (induction c nx cur lx and cs nx cur lx rule: leafmap_leafmap_f.induct)
  case (1 t cs nx cur lx)
  then show ?case by (auto split: if_splits)
next
  case (2 nx cur lx)
  then show ?case by simp
next
  case (3 c cs nx cur lx)
  show ?case
  proof (cases "(i, k) \<in> set (lvs c nx cur)")
    case True
    then have "i < nx + nsize c" using lvs_range(1) by blast
    then show ?thesis using 3(1)[OF True] by (simp add: leafmap_frame)
  next
    case False
    then show ?thesis using 3 by simp
  qed
qed

section \<open>The columns of the nodes\<close>

lemma unitmap_frame:
  "i < nx \<Longrightarrow> unitmap c nx cur xu i = xu i"
  "i < nx \<Longrightarrow> unitmap_f cs nx cur xu i = xu i"
  by (induction c nx cur xu and cs nx cur xu rule: unitmap_unitmap_f.induct) auto

lemma unitmap_root: "unitmap c nx cur xu nx = Some (Fin (unit_node cur c))"
  by (cases c) simp

lemma units_children:
  "map (unit_of (unitmap_f cs nx cur xu)) (child_ids nx cs) = map Fin (units_f cur cs)"
proof (induction cs arbitrary: nx cur xu)
  case Nil
  show ?case by simp
next
  case (Cons c cs)
  have "unitmap_f cs (nx + nsize c) (cur + nleaves c) (unitmap c nx cur xu) nx =
        unitmap c nx cur xu nx"
    by (rule unitmap_frame(2)) simp
  then show ?case using Cons.IH by (simp add: unit_of_def unitmap_root)
qed

lemma foldl_js_add_Fin: "foldl js_add (Fin a) (map Fin rs) = Fin (a + sum_list rs)"
  by (induction rs arbitrary: a) (simp_all add: add.assoc)

lemma length_units_f [simp]: "length (units_f cur cs) = length cs"
  by (induction cs arbitrary: cur) auto

lemma computeX_each_forest:
  assumes "\<And>c d par nx fuel xu cur. c \<in> set cs \<Longrightarrow> covered byId (went c d par nx) \<Longrightarrow>
             tree_height c \<le> fuel \<Longrightarrow> (\<forall>ik \<in> set (lvs c nx cur). leafX (fst ik) = Some (snd ik)) \<Longrightarrow>
             computeX byId leafX fuel xu nx = Some (unitmap c nx cur xu)"
    and "covered byId (wents cs d par nx)" and "forest_height cs \<le> fuel"
    and "\<forall>ik \<in> set (lvs_f cs nx cur). leafX (fst ik) = Some (snd ik)"
  shows "computeX_each byId leafX fuel xu (child_ids nx cs) = Some (unitmap_f cs nx cur xu)"
  using assms
proof (induction cs arbitrary: nx xu cur)
  case Nil
  show ?case by simp
next
  case (Cons c cs)
  have c: "computeX byId leafX fuel xu nx = Some (unitmap c nx cur xu)"
    using Cons.prems(2,3,4)
    by (intro Cons.prems(1)[where d = d and par = par]) (auto simp: covered_append)
  have "computeX_each byId leafX fuel (unitmap c nx cur xu) (child_ids (nx + nsize c) cs) =
        Some (unitmap_f cs (nx + nsize c) (cur + nleaves c) (unitmap c nx cur xu))"
    using Cons.prems by (intro Cons.IH) (auto simp: covered_append)
  then show ?case using c by simp
qed

lemma computeX_node:
  "covered byId (went c d par nx) \<Longrightarrow> tree_height c \<le> fuel \<Longrightarrow>
   (\<forall>ik \<in> set (lvs c nx cur). leafX (fst ik) = Some (snd ik)) \<Longrightarrow>
   computeX byId leafX fuel xu nx = Some (unitmap c nx cur xu)"
proof (induction c arbitrary: d par nx fuel xu cur)
  case (Node t cs)
  obtain fuel' where fuel: "fuel = Suc fuel'" and h: "forest_height cs \<le> fuel'"
    using Node.prems(2) by (cases fuel) auto
  note r = covered_root[OF Node.prems(1)]
  have lv: "\<forall>ik \<in> set (lvs_f cs (Suc nx) cur). leafX (fst ik) = Some (snd ik)"
    using Node.prems(3) by (cases "cs = []") auto
  have each: "computeX_each byId leafX fuel' xu (child_ids (Suc nx) cs) =
              Some (unitmap_f cs (Suc nx) cur xu)"
    using Node.IH r(2) h lv by (rule computeX_each_forest)
  show ?case
  proof (cases "cs = []")
    case True
    have "leafX nx = Some cur" using Node.prems(3) True by simp
    then show ?thesis using True r(1,3) each by (simp add: fuel fun_upd_def)
  next
    case False
    have n: "of_nat (length cs) \<noteq> (0::rat)" using False by simp
    let ?xs = "map (unit_of (unitmap_f cs (Suc nx) cur xu)) (child_ids (Suc nx) cs)"
    have val: "js_div (foldl js_add (Fin 0) ?xs) (Fin (of_nat (length ?xs))) =
          Fin (unit_node cur (Node t cs))"
      using False n by (simp add: units_children foldl_js_add_Fin)
    have "computeX byId leafX fuel xu nx =
          Some ((unitmap_f cs (Suc nx) cur xu)
                 (nx \<mapsto> js_div (foldl js_add (Fin 0) ?xs) (Fin (of_nat (length ?xs)))))"
      using False r(1,3) each by (simp add: fuel Let_def)
    then show ?thesis unfolding val by (simp only: unitmap.simps)
  qed
qed

lemma computeX_each_wents:
  assumes "covered byId (wents cs d par nx)" and "forest_height cs \<le> fuel"
    and "\<forall>ik \<in> set (lvs_f cs nx cur). leafX (fst ik) = Some (snd ik)"
  shows "computeX_each byId leafX fuel xu (child_ids nx cs) = Some (unitmap_f cs nx cur xu)"
  using computeX_node assms by (rule computeX_each_forest)

lemma ids_range:
  "e \<in> set (went c d par nx) \<Longrightarrow> nx \<le> node_id e \<and> node_id e < nx + nsize c"
  "e \<in> set (wents cs d par nx) \<Longrightarrow> nx \<le> node_id e \<and> node_id e < nx + fsize cs"
proof -
  assume "e \<in> set (went c d par nx)"
  then have "node_id e \<in> set (map node_id (went c d par nx))" by simp
  then show "nx \<le> node_id e \<and> node_id e < nx + nsize c" unfolding ids_went by simp
next
  assume "e \<in> set (wents cs d par nx)"
  then have "node_id e \<in> set (map node_id (wents cs d par nx))" by simp
  then show "nx \<le> node_id e \<and> node_id e < nx + fsize cs" unfolding ids_went by simp
qed

lemma du_went:
  "map (\<lambda>e. (depth e, unit_of (unitmap c nx cur xu) (node_id e))) (went c d par nx) =
   map (\<lambda>p. (fst p, Fin (snd p))) (du d cur c)"
  "map (\<lambda>e. (depth e, unit_of (unitmap_f cs nx cur xu) (node_id e))) (wents cs d par nx) =
   map (\<lambda>p. (fst p, Fin (snd p))) (du_f d cur cs)"
proof (induction c d par nx and cs d par nx arbitrary: cur xu and cur xu rule: went_wents.induct)
  case (1 t cs d par nx)
  let ?V = "unitmap (Node t cs) nx cur xu"
  have head: "unit_of ?V nx = Fin (unit_node cur (Node t cs))"
    by (simp add: unit_of_def)
  have "map (\<lambda>e. (depth e, unit_of ?V (node_id e))) (wents cs (Suc d) (Some nx) (Suc nx)) =
        map (\<lambda>e. (depth e, unit_of (unitmap_f cs (Suc nx) cur xu) (node_id e)))
          (wents cs (Suc d) (Some nx) (Suc nx))"
  proof (rule map_cong[OF refl])
    fix e assume "e \<in> set (wents cs (Suc d) (Some nx) (Suc nx))"
    then have "node_id e \<noteq> nx" using ids_range(2) by fastforce
    then show "(depth e, unit_of ?V (node_id e)) =
               (depth e, unit_of (unitmap_f cs (Suc nx) cur xu) (node_id e))"
      by (simp add: unit_of_def)
  qed
  then show ?case using head 1[of cur xu] by (simp del: unitmap.simps unit_node.simps)
next
  case (2 d par nx)
  show ?case by simp
next
  case (3 c cs d par nx)
  let ?U = "unitmap c nx cur xu"
  have "map (\<lambda>e. (depth e, unit_of (unitmap_f cs (nx + nsize c) (cur + nleaves c) ?U) (node_id e)))
          (went c d par nx) =
        map (\<lambda>e. (depth e, unit_of ?U (node_id e))) (went c d par nx)"
  proof (rule map_cong[OF refl])
    fix e assume "e \<in> set (went c d par nx)"
    then have "node_id e < nx + nsize c" using ids_range(1) by fastforce
    then show "(depth e, unit_of (unitmap_f cs (nx + nsize c) (cur + nleaves c) ?U) (node_id e)) =
               (depth e, unit_of ?U (node_id e))"
      by (simp add: unit_of_def unitmap_frame)
  qed
  then show ?case using 3(1)[of cur xu] 3(2)[of "cur + nleaves c" ?U] by simp
qed

section \<open>Nodes of one depth are a column apart\<close>

lemma sum_list_bounds:
  fixes xs :: "rat list"
  assumes "\<forall>x \<in> set xs. a \<le> x \<and> x \<le> b"
  shows "of_nat (length xs) * a \<le> sum_list xs \<and> sum_list xs \<le> of_nat (length xs) * b"
  using assms by (induction xs) (auto simp: algebra_simps)

lemma mean_bounds:
  fixes xs :: "rat list"
  assumes "xs \<noteq> []" and "\<forall>x \<in> set xs. a \<le> x \<and> x \<le> b"
  shows "a \<le> sum_list xs / of_nat (length xs) \<and> sum_list xs / of_nat (length xs) \<le> b"
proof -
  have n: "(0::rat) < of_nat (length xs)" using assms(1) by simp
  from sum_list_bounds[OF assms(2)] show ?thesis
    using n by (simp add: pos_le_divide_eq pos_divide_le_eq mult.commute)
qed

lemma unit_bounds:
  "of_nat cur \<le> unit_node cur c \<and> unit_node cur c + 1 \<le> of_nat (cur + nleaves c)"
  "\<forall>u \<in> set (units_f cur cs). of_nat cur \<le> u \<and> u + 1 \<le> of_nat (cur + fleaves cs)"
proof (induction cur c and cur cs rule: unit_node_units_f.induct)
  case (1 cur t cs)
  show ?case
  proof (cases "cs = []")
    case True
    then show ?thesis by simp
  next
    case False
    have "\<forall>u \<in> set (units_f cur cs). of_nat cur \<le> u \<and> u \<le> of_nat (cur + fleaves cs) - 1"
      using 1[OF False] by auto
    moreover have "units_f cur cs \<noteq> []" using False by (cases cs) auto
    ultimately have "of_nat cur \<le> sum_list (units_f cur cs) / of_nat (length (units_f cur cs)) \<and>
        sum_list (units_f cur cs) / of_nat (length (units_f cur cs)) \<le> of_nat (cur + fleaves cs) - 1"
      by (intro mean_bounds)
    then show ?thesis using False by (auto simp: le_diff_eq)
  qed
next
  case (2 cur)
  show ?case by simp
next
  case (3 cur c cs)
  then show ?case by (auto simp: add.assoc)
qed

lemma du_bounds:
  "p \<in> set (du d cur c) \<Longrightarrow>
     d \<le> fst p \<and> of_nat cur \<le> snd p \<and> snd p + 1 \<le> of_nat (cur + nleaves c)"
  "p \<in> set (du_f d cur cs) \<Longrightarrow>
     d \<le> fst p \<and> of_nat cur \<le> snd p \<and> snd p + 1 \<le> of_nat (cur + fleaves cs)"
proof (induction d cur c and d cur cs rule: du_du_f.induct)
  case (1 d cur t cs)
  show ?case
  proof (cases "p = (d, unit_node cur (Node t cs))")
    case True
    then show ?thesis using unit_bounds(1)[of cur "Node t cs"] by simp
  next
    case False
    then have "p \<in> set (du_f (Suc d) cur cs)" using 1(2) by simp
    then have cs: "cs \<noteq> []" by auto
    from 1(1)[OF \<open>p \<in> set (du_f (Suc d) cur cs)\<close>] show ?thesis using cs by simp
  qed
next
  case (2 d cur)
  then show ?case by simp
next
  case (3 d cur c cs)
  show ?case
  proof (cases "p \<in> set (du d cur c)")
    case True
    from 3(1)[OF True] show ?thesis by simp
  next
    case False
    then have "p \<in> set (du_f d (cur + nleaves c) cs)" using 3(3) by simp
    from 3(2)[OF this] show ?thesis by (simp add: add.assoc)
  qed
qed

lemma du_sorted:
  "sorted_wrt (\<lambda>a b. fst a = fst b \<longrightarrow> snd a + 1 \<le> snd b) (du d cur c)"
  "sorted_wrt (\<lambda>a b. fst a = fst b \<longrightarrow> snd a + 1 \<le> snd b) (du_f d cur cs)"
proof (induction d cur c and d cur cs rule: du_du_f.induct)
  case (1 d cur t cs)
  have "\<forall>p \<in> set (du_f (Suc d) cur cs). d \<noteq> fst p"
    using du_bounds(2)[of _ "Suc d" cur cs] by fastforce
  then show ?case using 1 by simp
next
  case (2 d cur)
  show ?case by simp
next
  case (3 d cur c cs)
  have "snd a + 1 \<le> snd b"
    if "a \<in> set (du d cur c)" "b \<in> set (du_f d (cur + nleaves c) cs)" for a b
    using du_bounds(1)[OF that(1)] du_bounds(2)[OF that(2)] by simp
  then show ?case using 3 by (simp add: sorted_wrt_append)
qed

section \<open>Finite numbers\<close>

lemma is_fin_Fin [simp]: "is_fin (Fin r)"
  by (simp add: is_fin_def)

lemma is_finE: "is_fin v \<Longrightarrow> (\<And>r. v = Fin r \<Longrightarrow> P) \<Longrightarrow> P"
  by (auto simp: is_fin_def)

lemma js_sub_Fin [simp]: "js_sub (Fin a) (Fin b) = Fin (a - b)"
  by (simp add: js_sub_def)

lemma js_max2_Fin [simp]: "js_max2 (Fin a) (Fin b) = Fin (max a b)"
  by (simp add: js_max2_def max_def)

lemma js_min2_Fin [simp]: "js_min2 (Fin a) (Fin b) = Fin (min a b)"
  by (auto simp: js_min2_def min_def)

lemma Math_max_two: "Math_max [Fin a, Fin b] = Fin (max a b)"
  by (simp add: Math_max_def js_max2_def max_def)

lemma is_fin_add: "is_fin a \<Longrightarrow> is_fin b \<Longrightarrow> is_fin (js_add a b)"
  by (auto elim!: is_finE)

lemma is_fin_sub: "is_fin a \<Longrightarrow> is_fin b \<Longrightarrow> is_fin (js_sub a b)"
  by (auto elim!: is_finE)

lemma is_fin_half: "is_fin a \<Longrightarrow> is_fin (js_div a (Fin 2))"
  by (auto elim!: is_finE)

lemma is_fin_max_two: "is_fin a \<Longrightarrow> is_fin b \<Longrightarrow> is_fin (Math_max [a, b])"
  by (auto elim!: is_finE simp: Math_max_two)

lemma foldl_js_min2_fin: "\<forall>v \<in> set vs. is_fin v \<Longrightarrow> is_fin (foldl js_min2 (Fin a) vs)"
  by (induction vs arbitrary: a) (auto elim!: is_finE)

lemma foldl_js_max2_fin: "\<forall>v \<in> set vs. is_fin v \<Longrightarrow> is_fin (foldl js_max2 (Fin a) vs)"
  by (induction vs arbitrary: a) (auto elim!: is_finE)

lemma Math_min_fin: "vs \<noteq> [] \<Longrightarrow> \<forall>v \<in> set vs. is_fin v \<Longrightarrow> is_fin (Math_min vs)"
proof (cases vs)
  case Nil
  assume "vs \<noteq> []" then show ?thesis using Nil by simp
next
  case (Cons v vs')
  assume a: "\<forall>v \<in> set vs. is_fin v"
  then obtain r where r: "v = Fin r" using Cons by (auto elim: is_finE)
  have "js_min2 PInf (Fin r) = Fin r" by (simp add: js_min2_def)
  then show ?thesis using a Cons r by (simp add: Math_min_def foldl_js_min2_fin)
qed

lemma Math_max_fin: "vs \<noteq> [] \<Longrightarrow> \<forall>v \<in> set vs. is_fin v \<Longrightarrow> is_fin (Math_max vs)"
proof (cases vs)
  case Nil
  assume "vs \<noteq> []" then show ?thesis using Nil by simp
next
  case (Cons v vs')
  assume a: "\<forall>v \<in> set vs. is_fin v"
  then obtain r where r: "v = Fin r" using Cons by (auto elim: is_finE)
  have "js_max2 NInf (Fin r) = Fin r" by (simp add: js_max2_def)
  then show ?thesis using a Cons r by (simp add: Math_max_def foldl_js_max2_fin)
qed

section \<open>The sizes of the nodes\<close>

lemma clampW_fin:
  "v \<noteq> NaN \<Longrightarrow> \<exists>w. clampW v = Fin w \<and> 120 \<le> w \<and> w \<le> 210"
  by (cases v)
    (auto simp: clampW_def Math_max_def Math_min_def js_max2_def js_min2_def MIN_NODE_W_def
      MAX_NODE_W_def)

lemma add_padding_not_NaN: "v \<noteq> NaN \<Longrightarrow> js_add v (js_mul PADDING_X (Fin 2)) \<noteq> NaN"
  by (cases v) (simp_all add: PADDING_X_def)

lemma size_node_fin:
  assumes "\<forall>s. measureTextPx s \<noteq> NaN"
  shows "\<exists>ls w h. size_node measureTextPx n = (ls, Fin w, Fin h) \<and> 120 \<le> w \<and> w \<le> 210 \<and> 0 \<le> h"
proof -
  let ?V = "js_add (measureTextPx (trim (collapse_ws (flat_text n)))) (js_mul PADDING_X (Fin 2))"
  have "?V \<noteq> NaN" using assms by (intro add_padding_not_NaN) simp
  then obtain w where w: "clampW ?V = Fin w" "120 \<le> w" "w \<le> 210"
    using clampW_fin by blast
  have wd: "fst (snd (size_node measureTextPx n)) = (if js_lt MAX_NODE_W ?V then MAX_NODE_W else clampW ?V)"
    by (simp add: size_node_def Let_def)
  have ht: "snd (snd (size_node measureTextPx n)) =
            Fin (28 + 16 * of_nat (length (fst (size_node measureTextPx n))))"
    by (simp add: size_node_def Let_def PADDING_Y_def LINE_H_def algebra_simps)
  obtain ls wd' ht' where s: "size_node measureTextPx n = (ls, wd', ht')"
    by (cases "size_node measureTextPx n") auto
  show ?thesis
  proof (cases "js_lt MAX_NODE_W ?V")
    case True
    then have "wd' = Fin 210" using wd s by (simp add: MAX_NODE_W_def)
    then show ?thesis using ht s by simp
  next
    case False
    then have "wd' = Fin w" using wd s w(1) by simp
    then show ?thesis using ht s w(2,3) by simp
  qed
qed

lemma sizes_flatten:
  assumes "e \<in> set (flattenTree roots)"
  shows "sizes_of measureTextPx (flattenTree roots) (node_id e) = Some (size_node measureTextPx e)"
proof -
  have "distinct (map node_id (flattenTree roots))"
    by (simp add: flattenTree_wents ids_went)
  then show ?thesis
    unfolding sizes_of_def using assms by (rule foldl_upd_distinct)
qed

section \<open>The rows\<close>

lemma foldl_max_ge: "(a::nat) \<le> foldl max a xs" "x \<in> set xs \<Longrightarrow> x \<le> foldl max a xs"
proof (induction xs arbitrary: a)
  case Nil
  { case 1 show ?case by simp }
  { case 2 then show ?case by simp }
next
  case (Cons y ys)
  { case 1 show ?case using Cons(1)[of "max a y"] by simp }
  { case 2 then show ?case using Cons(1)[of "max a y"] Cons(2)[of "max a y"] by auto }
qed

lemma maxh_fold:
  assumes "\<forall>n \<in> set flat. H n = Fin (hq n) \<and> depth n < length m0"
  shows "\<exists>mh. foldl (\<lambda>a n. a[depth n := Math_max [a ! depth n, H n]]) (map Fin m0) flat =
               map Fin mh \<and>
             length mh = length m0 \<and> (\<forall>i < length m0. m0 ! i \<le> mh ! i) \<and>
             (\<forall>n \<in> set flat. hq n \<le> mh ! depth n)"
  using assms
proof (induction flat arbitrary: m0)
  case Nil
  show ?case by (intro exI[of _ m0]) simp
next
  case (Cons n flat)
  let ?m1 = "m0[depth n := max (m0 ! depth n) (hq n)]"
  have n: "H n = Fin (hq n)" "depth n < length m0" using Cons.prems by simp_all
  have step: "(map Fin m0)[depth n := Math_max [map Fin m0 ! depth n, H n]] = map Fin ?m1"
    using n by (simp add: Math_max_two map_update)
  have "\<forall>n \<in> set flat. H n = Fin (hq n) \<and> depth n < length ?m1"
    using Cons.prems by simp
  from Cons.IH[OF this] obtain mh where mh:
    "foldl (\<lambda>a n. a[depth n := Math_max [a ! depth n, H n]]) (map Fin ?m1) flat = map Fin mh"
    "length mh = length m0" "\<forall>i < length m0. ?m1 ! i \<le> mh ! i"
    "\<forall>n \<in> set flat. hq n \<le> mh ! depth n"
    by auto
  have ge: "m0 ! i \<le> ?m1 ! i" if "i < length m0" for i
    using that by (cases "i = depth n") auto
  have "hq n \<le> ?m1 ! depth n" using n(2) by simp
  then have "hq n \<le> mh ! depth n" using mh(3) n(2) by force
  moreover have "\<forall>i < length m0. m0 ! i \<le> mh ! i"
    using ge mh(3) by force
  ultimately show ?case
    using mh(1,2,4) by (intro exI[of _ mh]) (simp add: step)
qed

lemma yTopByDepth_of_Fin: "yTopByDepth_of (Fin acc) (map Fin ms) = map Fin (ytop acc ms)"
  by (induction ms arbitrary: acc) (simp_all add: GAP_Y_def)

lemma length_ytop [simp]: "length (ytop acc ms) = length ms"
  by (induction ms arbitrary: acc) simp_all

lemma ytop_ge: "\<forall>m \<in> set ms. 0 \<le> m \<Longrightarrow> i < length ms \<Longrightarrow> acc \<le> ytop acc ms ! i"
proof (induction ms arbitrary: acc i)
  case Nil
  then show ?case by simp
next
  case (Cons m ms)
  show ?case
  proof (cases i)
    case 0
    then show ?thesis by simp
  next
    case (Suc k)
    have "acc + (m + 50) \<le> ytop (acc + (m + 50)) ms ! k"
      using Cons.prems Suc by (intro Cons.IH) auto
    then show ?thesis using Cons.prems(1) Suc by simp
  qed
qed

lemma ytop_gap:
  "\<forall>m \<in> set ms. 0 \<le> m \<Longrightarrow> i < j \<Longrightarrow> j < length ms \<Longrightarrow>
   ytop acc ms ! i + ms ! i + 50 \<le> ytop acc ms ! j"
proof (induction ms arbitrary: acc i j)
  case Nil
  then show ?case by simp
next
  case (Cons m ms)
  obtain j' where j: "j = Suc j'" using Cons.prems(2) by (cases j) auto
  show ?case
  proof (cases i)
    case 0
    have "acc + (m + 50) \<le> ytop (acc + (m + 50)) ms ! j'"
      using Cons.prems j by (intro ytop_ge) auto
    then show ?thesis using 0 j by simp
  next
    case (Suc i')
    have "ytop (acc + (m + 50)) ms ! i' + ms ! i' + 50 \<le> ytop (acc + (m + 50)) ms ! j'"
      using Cons.prems j Suc by (intro Cons.IH) auto
    then show ?thesis using Suc j by simp
  qed
qed

section \<open>The shifts keep rectangles apart\<close>

lemma fin_rect_shift: "fin_rect p \<Longrightarrow> fin_rect (shift (Fin a) (Fin b) p)"
  by (auto simp: fin_rect_def shift_def elim!: is_finE)

lemma apart_shift:
  "fin_rect p \<Longrightarrow> fin_rect q \<Longrightarrow> apart p q \<Longrightarrow>
   apart (shift (Fin a) (Fin b) p) (shift (Fin a) (Fin b) q)"
  by (auto simp: fin_rect_def shift_def apart_def elim!: is_finE)

lemma shift_zero: "fin_rect p \<Longrightarrow> shift (Fin 0) (Fin 0) p = p"
  by (auto simp: fin_rect_def shift_def elim!: is_finE)

lemma shift_x_shift: "fin_rect p \<Longrightarrow> shift_x (Fin a) p = shift (Fin a) (Fin 0) p"
  by (auto simp: fin_rect_def shift_def shift_x_def elim!: is_finE)

lemma pnode_shift [simp]: "pnode (shift dx dy p) = pnode p"
  by (simp add: shift_def)

lemma all_apart_shift:
  assumes "all_apart ps"
  shows "all_apart (map (shift (Fin a) (Fin b)) ps)"
  using assms by (auto simp: all_apart_def fin_rect_shift apart_shift)

lemma map_shift_zero: "\<forall>p \<in> set ps. fin_rect p \<Longrightarrow> map (shift (Fin 0) (Fin 0)) ps = ps"
  by (simp add: map_idI shift_zero)

lemma truthy_fin: "is_fin v \<Longrightarrow> \<not> truthy v \<Longrightarrow> v = Fin 0"
  by (auto simp: truthy_def elim!: is_finE)

lemma shift_to_margin_shape:
  assumes "ps \<noteq> []" and "\<forall>p \<in> set ps. fin_rect p"
  shows "\<exists>a b. shift_to_margin ps = map (shift (Fin a) (Fin b)) ps"
proof -
  let ?minX = "Math_min (map px ps)" and ?minY = "Math_min (map py ps)"
  let ?dx = "if js_lt ?minX MARGIN then js_sub MARGIN ?minX else Fin 0"
  let ?dy = "if js_lt ?minY MARGIN then js_sub MARGIN ?minY else Fin 0"
  have "is_fin ?minX" "is_fin ?minY"
    using assms by (auto intro!: Math_min_fin simp: fin_rect_def)
  then have "is_fin ?dx" "is_fin ?dy"
    by (auto simp: MARGIN_def intro!: is_fin_sub)
  then obtain a b where ab: "?dx = Fin a" "?dy = Fin b" by (auto elim!: is_finE)
  have eq: "shift_to_margin ps = (if truthy ?dx \<or> truthy ?dy then map (shift ?dx ?dy) ps else ps)"
    by (simp add: shift_to_margin_def Let_def)
  show ?thesis
  proof (cases "truthy ?dx \<or> truthy ?dy")
    case True
    then have "shift_to_margin ps = map (shift (Fin a) (Fin b)) ps"
      unfolding eq ab by simp
    then show ?thesis by blast
  next
    case False
    then have "a = 0" "b = 0" using ab by (auto simp: truthy_def)
    then have "shift_to_margin ps = map (shift (Fin a) (Fin b)) ps"
      unfolding eq using False assms(2) by (simp add: map_shift_zero)
    then show ?thesis by blast
  qed
qed

lemma shift_to_centre_shape:
  assumes "ps \<noteq> []" and "\<forall>p \<in> set ps. fin_rect p"
  shows "\<exists>a. shift_to_centre ps = map (shift (Fin a) (Fin 0)) ps"
proof -
  let ?cmin = "Math_min (map px ps)"
  let ?cmax = "Math_max (map (\<lambda>p. js_add (px p) (pw p)) ps)"
  let ?cw = "js_sub ?cmax ?cmin"
  let ?canvas = "js_add (Math_max [?cmax, MIN_CANVAS_W]) MARGIN"
  let ?des = "Math_max [MARGIN, js_div (js_sub ?canvas ?cw) (Fin 2)]"
  let ?dxc = "js_sub ?des ?cmin"
  have f: "is_fin ?cmin" "is_fin ?cmax"
    using assms by (auto intro!: Math_min_fin Math_max_fin is_fin_add simp: fin_rect_def)
  then have "is_fin ?dxc"
    by (intro is_fin_sub is_fin_max_two is_fin_half is_fin_add)
      (simp_all add: MARGIN_def MIN_CANVAS_W_def)
  then obtain a where a: "?dxc = Fin a" by (auto elim!: is_finE)
  have eq: "shift_to_centre ps = (if truthy ?dxc then map (shift_x ?dxc) ps else ps)"
    by (simp add: shift_to_centre_def Let_def)
  have sx: "map (shift_x (Fin a)) ps = map (shift (Fin a) (Fin 0)) ps"
    using assms(2) by (intro map_cong refl) (simp add: shift_x_shift)
  show ?thesis
  proof (cases "truthy ?dxc")
    case True
    then have "shift_to_centre ps = map (shift (Fin a) (Fin 0)) ps"
      unfolding eq a using sx by simp
    then show ?thesis by blast
  next
    case False
    then have "a = 0" using a by (auto simp: truthy_def)
    then have "shift_to_centre ps = map (shift (Fin a) (Fin 0)) ps"
      unfolding eq using False assms(2) by (simp add: map_shift_zero)
    then show ?thesis by blast
  qed
qed

lemma all_apart_shifts:
  assumes "all_apart ps"
  shows "all_apart (shift_to_centre (shift_to_margin ps)) \<and>
         map pnode (shift_to_centre (shift_to_margin ps)) = map pnode ps"
proof (cases "ps = []")
  case True
  then show ?thesis
    by (simp add: shift_to_centre_def shift_to_margin_def Let_def all_apart_def)
next
  case False
  have fr: "\<forall>p \<in> set ps. fin_rect p" using assms by (simp add: all_apart_def)
  obtain a b where 1: "shift_to_margin ps = map (shift (Fin a) (Fin b)) ps"
    using shift_to_margin_shape[OF False fr] by blast
  have a1: "all_apart (shift_to_margin ps)" unfolding 1 using assms by (rule all_apart_shift)
  then have fr1: "\<forall>p \<in> set (shift_to_margin ps). fin_rect p" by (simp add: all_apart_def)
  have ne1: "shift_to_margin ps \<noteq> []" using False by (simp add: 1)
  obtain c where 2: "shift_to_centre (shift_to_margin ps) =
                     map (shift (Fin c) (Fin 0)) (shift_to_margin ps)"
    using shift_to_centre_shape[OF ne1 fr1] by blast
  have "all_apart (shift_to_centre (shift_to_margin ps))"
    unfolding 2 using a1 by (rule all_apart_shift)
  moreover have "map pnode (shift_to_centre (shift_to_margin ps)) = map pnode ps"
    unfolding 2 by (simp add: 1 comp_def)
  ultimately show ?thesis by simp
qed

section \<open>The rectangles of the layout (C5)\<close>

lemma place_fin:
  assumes "sizes (node_id e) = Some (ls, Fin w, Fin h)"
    and "unit_of xUnit (node_id e) = Fin u" and "depth e < length yt"
  shows "place sizes xUnit (map Fin yt) e =
         \<lparr>pnode = e, px = Fin (30 + u * 264 - w / 2), py = Fin (yt ! depth e),
          pw = Fin w, ph = Fin h, plines = ls\<rparr>"
  using assms by (simp add: place_def pxX_def MAX_NODE_W_def GAP_X_def)

lemma pnode_place: "pnode (place sizes xUnit yt e) = e"
  by (simp add: place_def split: option.split prod.split)

lemma columns_apart:
  fixes u1 u2 w1 w2 :: rat
  assumes "u1 + 1 \<le> u2" and "w1 \<le> 210" and "w2 \<le> 210"
  shows "30 + u1 * 264 - w1 / 2 + w1 < 30 + u2 * 264 - w2 / 2"
  using assms by simp

lemma positioned0_apart:
  assumes "\<forall>s. measureTextPx s \<noteq> NaN"
  shows "all_apart
           (map (place (sizes_of measureTextPx (flattenTree roots))
                   (unitmap_f roots 1 0 Map.empty)
                   (yTopByDepth_of (Fin 30)
                      (maxHPerDepth_of (sizes_of measureTextPx (flattenTree roots))
                         (flattenTree roots) (foldl max 0 (map depth (flattenTree roots))))))
              (flattenTree roots))"
proof -
  let ?flat = "flattenTree roots"
  let ?sizes = "sizes_of measureTextPx ?flat"
  let ?xUnit = "unitmap_f roots 1 0 Map.empty"
  let ?maxDepth = "foldl max 0 (map depth ?flat)"
  let ?wq = "\<lambda>n. the_fin (fst (snd (size_node measureTextPx n)))"
  let ?hq = "\<lambda>n. the_fin (snd (snd (size_node measureTextPx n)))"
  let ?H = "\<lambda>n. case ?sizes (node_id n) of None \<Rightarrow> NaN | Some (ls, wd, ht) \<Rightarrow> ht"
  have sz: "?sizes (node_id n) = Some (fst (size_node measureTextPx n), Fin (?wq n), Fin (?hq n))"
    and wq: "120 \<le> ?wq n" "?wq n \<le> 210" and hq: "0 \<le> ?hq n"
    if "n \<in> set ?flat" for n
  proof -
    obtain ls w h where s: "size_node measureTextPx n = (ls, Fin w, Fin h)"
      "120 \<le> w" "w \<le> 210" "0 \<le> h"
      using size_node_fin[OF assms, of n] by blast
    show "?sizes (node_id n) = Some (fst (size_node measureTextPx n), Fin (?wq n), Fin (?hq n))"
      using sizes_flatten[OF that, of measureTextPx] s(1) by simp
    show "120 \<le> ?wq n" "?wq n \<le> 210" "0 \<le> ?hq n" using s by simp_all
  qed
  have dep: "depth n < length (replicate (?maxDepth + 1) (0::rat))" if "n \<in> set ?flat" for n
    using foldl_max_ge(2)[of "depth n" "map depth ?flat" 0] that by simp
  have "\<forall>n \<in> set ?flat. ?H n = Fin (?hq n) \<and> depth n < length (replicate (?maxDepth + 1) (0::rat))"
    using sz dep by simp
  from maxh_fold[OF this] obtain mh where mh:
    "foldl (\<lambda>a n. a[depth n := Math_max [a ! depth n, ?H n]])
       (map Fin (replicate (?maxDepth + 1) 0)) ?flat = map Fin mh"
    "length mh = ?maxDepth + 1"
    "\<forall>i < length (replicate (?maxDepth + 1) (0::rat)). replicate (?maxDepth + 1) (0::rat) ! i \<le> mh ! i"
    "\<forall>n \<in> set ?flat. ?hq n \<le> mh ! depth n"
    by auto
  have mh_eq: "maxHPerDepth_of ?sizes ?flat ?maxDepth = map Fin mh"
    using mh(1) by (simp add: maxHPerDepth_of_def)
  have "0 \<le> mh ! i" if "i < length mh" for i
  proof -
    have i: "i < ?maxDepth + 1" using that mh(2) by simp
    then have "replicate (?maxDepth + 1) (0::rat) ! i = 0" by (rule nth_replicate)
    then show ?thesis using mh(3) i by (metis length_replicate)
  qed
  then have mh_pos: "\<forall>m \<in> set mh. 0 \<le> m"
    by (auto simp: in_set_conv_nth)
  let ?yt = "ytop 30 mh"
  have yt: "yTopByDepth_of (Fin 30) (maxHPerDepth_of ?sizes ?flat ?maxDepth) = map Fin ?yt"
    by (simp add: mh_eq yTopByDepth_of_Fin)
  let ?DU = "du_f 0 0 roots"
  have DU: "map (\<lambda>e. (depth e, unit_of ?xUnit (node_id e))) ?flat =
            map (\<lambda>p. (fst p, Fin (snd p))) ?DU"
    unfolding flattenTree_wents by (rule du_went(2))
  have len: "length ?DU = length ?flat"
    using arg_cong[OF DU, of length] by simp
  have du_i: "depth (?flat ! i) = fst (?DU ! i) \<and> unit_of ?xUnit (node_id (?flat ! i)) = Fin (snd (?DU ! i))"
    if "i < length ?flat" for i
    using arg_cong[OF DU, of "\<lambda>l. l ! i"] that len by simp
  let ?P = "map (place ?sizes ?xUnit (map Fin ?yt)) ?flat"
  have P_i: "?P ! i = \<lparr>pnode = ?flat ! i,
                px = Fin (30 + snd (?DU ! i) * 264 - ?wq (?flat ! i) / 2),
                py = Fin (?yt ! depth (?flat ! i)),
                pw = Fin (?wq (?flat ! i)), ph = Fin (?hq (?flat ! i)),
                plines = fst (size_node measureTextPx (?flat ! i))\<rparr>"
    if "i < length ?flat" for i
  proof -
    have n: "?flat ! i \<in> set ?flat" using that by simp
    have "place ?sizes ?xUnit (map Fin ?yt) (?flat ! i) = \<lparr>pnode = ?flat ! i,
                px = Fin (30 + snd (?DU ! i) * 264 - ?wq (?flat ! i) / 2),
                py = Fin (?yt ! depth (?flat ! i)),
                pw = Fin (?wq (?flat ! i)), ph = Fin (?hq (?flat ! i)),
                plines = fst (size_node measureTextPx (?flat ! i))\<rparr>"
      using sz[OF n] du_i[OF that] dep[OF n] mh(2) by (intro place_fin) simp_all
    then show ?thesis using that by simp
  qed
  have fr: "\<forall>p \<in> set ?P. fin_rect p"
  proof
    fix p assume "p \<in> set ?P"
    then obtain i where i: "i < length ?flat" "p = ?P ! i"
      by (metis in_set_conv_nth length_map)
    show "fin_rect p" unfolding i(2) P_i[OF i(1)] by (simp add: fin_rect_def)
  qed
  have ap: "apart (?P ! i) (?P ! j)" if ij: "i < j" "j < length ?flat" for i j
  proof -
    have i: "i < length ?flat" using ij by simp
    have ni: "?flat ! i \<in> set ?flat" and nj: "?flat ! j \<in> set ?flat" using i ij(2) by simp_all
    let ?di = "depth (?flat ! i)" and ?dj = "depth (?flat ! j)"
    have dl: "?di < length mh" "?dj < length mh" using dep[OF ni] dep[OF nj] mh(2) by simp_all
    consider "?di = ?dj" | "?di < ?dj" | "?dj < ?di" by linarith
    then show ?thesis
    proof cases
      case 1
      have "fst (?DU ! i) = fst (?DU ! j) \<longrightarrow> snd (?DU ! i) + 1 \<le> snd (?DU ! j)"
        using du_sorted(2)[of 0 0 roots] ij len by (simp add: sorted_wrt_iff_nth_less)
      then have "snd (?DU ! i) + 1 \<le> snd (?DU ! j)"
        using 1 du_i[OF i] du_i[OF ij(2)] by simp
      then have "30 + snd (?DU ! i) * 264 - ?wq (?flat ! i) / 2 + ?wq (?flat ! i) <
                 30 + snd (?DU ! j) * 264 - ?wq (?flat ! j) / 2"
        using wq(2)[OF ni] wq(2)[OF nj] by (intro columns_apart)
      then show ?thesis unfolding P_i[OF i] P_i[OF ij(2)] by (simp add: apart_def)
    next
      case 2
      have "?yt ! ?di + mh ! ?di + 50 \<le> ?yt ! ?dj"
        using mh_pos 2 dl(2) by (rule ytop_gap)
      then have "?yt ! ?di + ?hq (?flat ! i) < ?yt ! ?dj"
        using mh(4) ni by force
      then show ?thesis unfolding P_i[OF i] P_i[OF ij(2)] by (simp add: apart_def)
    next
      case 3
      have "?yt ! ?dj + mh ! ?dj + 50 \<le> ?yt ! ?di"
        using mh_pos 3 dl(1) by (rule ytop_gap)
      then have "?yt ! ?dj + ?hq (?flat ! j) < ?yt ! ?di"
        using mh(4) nj by force
      then show ?thesis unfolding P_i[OF i] P_i[OF ij(2)] by (simp add: apart_def)
    qed
  qed
  have "all_apart ?P"
    unfolding all_apart_def using fr ap by simp
  then show ?thesis unfolding yt .
qed

lemma layout_shape:
  assumes "assignLeaves_each (byId_of flat) (length flat + 1) (Map.empty, 0)
             (map node_id (filter (\<lambda>n. parentId n = None) flat)) = Some (leafX, lc)"
    and "computeX_each (byId_of flat) leafX (length flat + 1) Map.empty
             (map node_id (filter (\<lambda>n. parentId n = None) flat)) = Some xUnit"
  shows "\<exists>res. layoutTreeForSvg measureTextPx flat = Some res \<and>
           positioned res =
             shift_to_centre (shift_to_margin
               (map (place (sizes_of measureTextPx flat) xUnit
                       (yTopByDepth_of (Fin 30)
                          (maxHPerDepth_of (sizes_of measureTextPx flat) flat
                             (foldl max 0 (map depth flat)))))
                  flat))"
  using assms
  by (simp add: layoutTreeForSvg_def Let_def shift_to_margin_def shift_to_centre_def)

lemma layout_flatten:
  "\<exists>res. layoutTreeForSvg measureTextPx (flattenTree roots) = Some res \<and>
     positioned res =
       shift_to_centre (shift_to_margin
         (map (place (sizes_of measureTextPx (flattenTree roots))
                 (unitmap_f roots 1 0 Map.empty)
                 (yTopByDepth_of (Fin 30)
                    (maxHPerDepth_of (sizes_of measureTextPx (flattenTree roots))
                       (flattenTree roots) (foldl max 0 (map depth (flattenTree roots))))))
            (flattenTree roots)))"
proof -
  let ?flat = "flattenTree roots"
  have ids: "map node_id (filter (\<lambda>n. parentId n = None) ?flat) = child_ids 1 roots"
    unfolding flattenTree_wents by (rule roots_of_wents)
  have len: "length ?flat = fsize roots"
    by (simp add: flattenTree_wents length_went)
  have h: "forest_height roots \<le> length ?flat + 1"
    using height_le_size(2)[of roots] len by simp
  have al: "assignLeaves_each (byId_of ?flat) (length ?flat + 1) (Map.empty, 0)
              (map node_id (filter (\<lambda>n. parentId n = None) ?flat)) =
            Some (leafmap_f roots 1 0 Map.empty, 0 + fleaves roots)"
    unfolding ids using covered_flatten h by (rule assignLeaves_each_wents)
  have lv: "\<forall>ik \<in> set (lvs_f roots 1 0). leafmap_f roots 1 0 Map.empty (fst ik) = Some (snd ik)"
    using leafmap_lvs(2)[of _ _ roots 1 0 Map.empty] by auto
  have cx: "computeX_each (byId_of ?flat) (leafmap_f roots 1 0 Map.empty) (length ?flat + 1)
              Map.empty (map node_id (filter (\<lambda>n. parentId n = None) ?flat)) =
            Some (unitmap_f roots 1 0 Map.empty)"
    unfolding ids using covered_flatten h lv by (rule computeX_each_wents)
  show ?thesis using al cx by (rule layout_shape)
qed

text \<open>
  C5. Let the text measurement return a number, any but \<^verbatim>\<open>NaN\<close>, for every string. For
  every forest \<open>roots\<close>, and so for every parsed tree, \<^verbatim>\<open>layoutTreeForSvg\<close> returns on
  \<open>flattenTree roots\<close>; it positions the nodes of the flat array in their order; and any
  two rectangles \<open>[x, x + w] \<times> [y, y + h]\<close> of the result are apart. This holds
  for every pair of distinct nodes, among them every pair in which neither node is an
  ancestor of the other. Two nodes of one depth lie in columns at least one unit, 264
  pixels, apart, and no node is wider than 210 pixels; two nodes of different depths lie
  in rows whose tops are at least the height of the upper row and 50 pixels apart. Finite
  numbers are exact in the model; the gaps left between rectangles are at least 50
  pixels.
\<close>

theorem C5_rectangles_apart:
  assumes "\<forall>s. measureTextPx s \<noteq> NaN"
  shows "\<exists>res. layoutTreeForSvg measureTextPx (flattenTree roots) = Some res \<and>
           map pnode (positioned res) = flattenTree roots \<and>
           (\<forall>i j. i < j \<and> j < length (positioned res) \<longrightarrow>
              apart (positioned res ! i) (positioned res ! j))"
proof -
  let ?P = "map (place (sizes_of measureTextPx (flattenTree roots))
                 (unitmap_f roots 1 0 Map.empty)
                 (yTopByDepth_of (Fin 30)
                    (maxHPerDepth_of (sizes_of measureTextPx (flattenTree roots))
                       (flattenTree roots) (foldl max 0 (map depth (flattenTree roots))))))
            (flattenTree roots)"
  obtain res where res: "layoutTreeForSvg measureTextPx (flattenTree roots) = Some res"
    "positioned res = shift_to_centre (shift_to_margin ?P)"
    using layout_flatten[of measureTextPx roots] by blast
  have "all_apart ?P" using assms by (rule positioned0_apart)
  from all_apart_shifts[OF this]
  have a: "all_apart (positioned res)" and n: "map pnode (positioned res) = map pnode ?P"
    unfolding res(2) by simp_all
  have "map pnode ?P = flattenTree roots"
    by (simp add: comp_def pnode_place)
  then show ?thesis using res(1) a n by (auto simp: all_apart_def)
qed

lemma flatten_scenario1:
  "length (flattenTree (parseIndentedTree [65, 10, 32, 32, 66, 10, 32, 32, 67] 2)) = 3"
  by (simp add: parse_scenario1 flattenTree_def)

theorem C5_witness:
  "(\<forall>s. Fin (7 * of_nat (length (s :: jsstring))) \<noteq> NaN) \<and>
   (\<exists>res. layoutTreeForSvg (\<lambda>s. Fin (7 * of_nat (length s)))
             (flattenTree (parseIndentedTree [65, 10, 32, 32, 66, 10, 32, 32, 67] 2)) = Some res \<and>
          length (positioned res) = 3 \<and>
          apart (positioned res ! 0) (positioned res ! 1) \<and>
          apart (positioned res ! 0) (positioned res ! 2) \<and>
          apart (positioned res ! 1) (positioned res ! 2))"
proof -
  let ?m = "\<lambda>s :: jsstring. Fin (7 * of_nat (length s))"
  let ?flat = "flattenTree (parseIndentedTree [65, 10, 32, 32, 66, 10, 32, 32, 67] 2)"
  have m: "\<forall>s. ?m s \<noteq> NaN" by simp
  from C5_rectangles_apart[OF m, of "parseIndentedTree [65, 10, 32, 32, 66, 10, 32, 32, 67] 2"]
  obtain res where res: "layoutTreeForSvg ?m ?flat = Some res"
    "map pnode (positioned res) = ?flat"
    "\<forall>i j. i < j \<and> j < length (positioned res) \<longrightarrow> apart (positioned res ! i) (positioned res ! j)"
    by blast
  have l: "length (positioned res) = 3"
    using arg_cong[OF res(2), of length] flatten_scenario1 by simp
  have "apart (positioned res ! 0) (positioned res ! 1)"
    "apart (positioned res ! 0) (positioned res ! 2)"
    "apart (positioned res ! 1) (positioned res ! 2)"
    using res(3) l by simp_all
  then show ?thesis using res(1) l by blast
qed

end
